theory Spec2Isabelle
  imports Complex_Main
begin

section \<open>Errors and Python arithmetic\<close>

text \<open>
  The detection module is Python. Exceptions are values: every function of the source that
  can raise returns \<open>error + 'a\<close>, with \<open>Inl\<close> the exception. Floating-point numbers are
  idealised as reals; the two operations whose floating-point result is no real number
  (numpy division by zero, which yields inf or nan with a warning) are reported as
  \<open>NonFiniteFloat\<close>, so that they are a visible branch of the model. Where
  \<open>correct_yolo_boxes\<close> converts the corners of a box to integers, the floating-point
  product and the exceptions of the conversion are modelled as such.
\<close>

datatype value_error =
  ModelNotLoaded | BadOutputPath | BadInputType | CannotReshape | CannotConvertNaN

datatype error =
    ValueError value_error
  | IndexError
  | KeyError
  | ZeroDivisionError
  | AttributeError
  | AxisError
  | NonFiniteFloat
  | OverflowError

text \<open>Sequencing: the first exception ends the computation.\<close>

definition then_do :: "error + 'a \<Rightarrow> ('a \<Rightarrow> error + 'b) \<Rightarrow> error + 'b" where
  "then_do r f = (case r of Inl e \<Rightarrow> Inl e | Inr x \<Rightarrow> f x)"

text \<open>Python's \<open>int(x)\<close> on a float: truncation towards zero.\<close>

definition py_int :: "real \<Rightarrow> int" where
  "py_int x = (if 0 \<le> x then \<lfloor>x\<rfloor> else \<lceil>x\<rceil>)"

text \<open>Python's \<open>a / b\<close> on Python floats raises on a zero divisor.\<close>

definition py_truediv :: "real \<Rightarrow> real \<Rightarrow> error + real" where
  "py_truediv a b = (if b = 0 then Inl ZeroDivisionError else Inr (a / b))"

text \<open>Python's \<open>a % b\<close> on ints: the sign follows the divisor, as HOL's \<open>mod\<close> on \<open>int\<close>.\<close>

definition py_mod :: "int \<Rightarrow> int \<Rightarrow> error + int" where
  "py_mod a b = (if b = 0 then Inl ZeroDivisionError else Inr (a mod b))"

section \<open>BoundBox\<close>

text \<open>
  \<open>class BoundBox\<close>: the coordinates are floats while normalised and Python ints after
  \<open>correct_yolo_boxes\<close>; both are embedded in \<open>real\<close>. \<open>label\<close> and \<open>score\<close> are the
  caches initialised to \<open>-1\<close> by the constructor.
\<close>

record BoundBox =
  xmin :: real
  ymin :: real
  xmax :: real
  ymax :: real
  objness :: real
  classes :: "real list"
  label :: int
  score :: real

definition new_BoundBox :: "real \<Rightarrow> real \<Rightarrow> real \<Rightarrow> real \<Rightarrow> real \<Rightarrow> real list \<Rightarrow> BoundBox" where
  "new_BoundBox x0 y0 x1 y1 obj cls =
     \<lparr> xmin = x0, ymin = y0, xmax = x1, ymax = y1, objness = obj, classes = cls,
       label = -1, score = -1 \<rparr>"

section \<open>Intersection over union\<close>

text \<open>\<open>CustomDetectionUtils._interval_overlap\<close>, branch for branch.\<close>

definition interval_overlap :: "real \<times> real \<Rightarrow> real \<times> real \<Rightarrow> real" where
  "interval_overlap interval_a interval_b =
     (case interval_a of (x1, x2) \<Rightarrow> case interval_b of (x3, x4) \<Rightarrow>
        if x3 < x1 then (if x4 < x1 then 0 else min x2 x4 - x1)
        else (if x2 < x3 then 0 else min x2 x4 - x3))"

definition intersect_area :: "BoundBox \<Rightarrow> BoundBox \<Rightarrow> real" where
  "intersect_area box1 box2 =
     interval_overlap (xmin box1, xmax box1) (xmin box2, xmax box2) *
     interval_overlap (ymin box1, ymax box1) (ymin box2, ymax box2)"

definition union_area :: "BoundBox \<Rightarrow> BoundBox \<Rightarrow> real" where
  "union_area box1 box2 =
     (xmax box1 - xmin box1) * (ymax box1 - ymin box1) +
     (xmax box2 - xmin box2) * (ymax box2 - ymin box2) - intersect_area box1 box2"

text \<open>
  \<open>CustomDetectionUtils.bbox_iou\<close>: both operands go through \<open>float(...)\<close>, so the division
  is Python's and raises on a zero union; the bare \<open>except\<close> turns that into \<open>0.0\<close>.
\<close>

definition bbox_iou :: "BoundBox \<Rightarrow> BoundBox \<Rightarrow> real" where
  "bbox_iou box1 box2 =
     (case py_truediv (intersect_area box1 box2) (union_area box1 box2) of
        Inr result \<Rightarrow> result
      | Inl _ \<Rightarrow> 0)"

text \<open>A box is a rectangle when its corners are in order.\<close>

definition is_rect :: "BoundBox \<Rightarrow> bool" where
  "is_rect b = (xmin b \<le> xmax b \<and> ymin b \<le> ymax b)"

section \<open>Non-maximum suppression\<close>

text \<open>The assignment \<open>box.classes[c] = 0\<close>.\<close>

definition zero_score :: "nat \<Rightarrow> BoundBox \<Rightarrow> BoundBox" where
  "zero_score c b = b\<lparr> classes := (classes b)[c := 0] \<rparr>"

text \<open>
  \<open>np.argsort\<close>: the indices of the keys in ascending key order. numpy's default sort is
  not stable; the order among equal keys is fixed here as insertion order.
\<close>

definition argsort :: "real list \<Rightarrow> nat list" where
  "argsort ks = sort_key (\<lambda>i. ks ! i) [0..<length ks]"

text \<open>The innermost loop of \<open>do_nms\<close>: \<open>si\<close> is \<open>sorted_indices[i]\<close>, the list its successors.\<close>

fun nms_inner :: "nat \<Rightarrow> real \<Rightarrow> nat \<Rightarrow> nat list \<Rightarrow> BoundBox list \<Rightarrow> BoundBox list" where
  "nms_inner c nms_thresh si [] boxes = boxes"
| "nms_inner c nms_thresh si (sj # rest) boxes =
     nms_inner c nms_thresh si rest
       (if nms_thresh \<le> bbox_iou (boxes ! si) (boxes ! sj)
        then boxes[sj := zero_score c (boxes ! sj)] else boxes)"

text \<open>The loop over \<open>i\<close>: a box whose score for class \<open>c\<close> is zero suppresses nothing.\<close>

fun nms_sweep :: "nat \<Rightarrow> real \<Rightarrow> nat list \<Rightarrow> BoundBox list \<Rightarrow> BoundBox list" where
  "nms_sweep c nms_thresh [] boxes = boxes"
| "nms_sweep c nms_thresh (si # rest) boxes =
     nms_sweep c nms_thresh rest
       (if classes (boxes ! si) ! c \<noteq> 0 then nms_inner c nms_thresh si rest boxes else boxes)"

text \<open>
  One iteration of the loop over classes. Reading \<open>box.classes[c]\<close> of a box with fewer
  scores than \<open>boxes[0]\<close> raises.
\<close>

definition nms_class :: "real \<Rightarrow> nat \<Rightarrow> BoundBox list \<Rightarrow> error + BoundBox list" where
  "nms_class nms_thresh c boxes =
     (if \<exists>b \<in> set boxes. length (classes b) \<le> c then Inl IndexError
      else Inr (nms_sweep c nms_thresh (argsort (map (\<lambda>b. - (classes b ! c)) boxes)) boxes))"

definition do_nms :: "BoundBox list \<Rightarrow> real \<Rightarrow> error + BoundBox list" where
  "do_nms boxes nms_thresh =
     (if boxes = [] then Inr boxes
      else fold (\<lambda>c r. then_do r (nms_class nms_thresh c))
             [0..<length (classes (hd boxes))] (Inr boxes))"

section \<open>Region of interest\<close>

text \<open>
  The body of the loop over \<open>c\<close> in \<open>RoI\<close> for one box; \<open>roi\<close> has four entries here.
  \<open>x not in range(lo, hi)\<close> is \<open>\<not> (lo \<le> x \<and> x < hi)\<close>.
\<close>

definition roi_outside :: "int list \<Rightarrow> BoundBox \<Rightarrow> bool" where
  "roi_outside roi b =
     (let x_centre = py_int ((xmax b + xmin b) / 2);
          y_centre = py_int ((ymax b + ymin b) / 2)
      in \<not> (roi ! 0 \<le> x_centre \<and> x_centre < roi ! 1)
         \<or> \<not> (roi ! 2 \<le> y_centre \<and> y_centre < roi ! 3))"

fun roi_classes :: "int list \<Rightarrow> nat list \<Rightarrow> BoundBox \<Rightarrow> error + BoundBox" where
  "roi_classes roi [] b = Inr b"
| "roi_classes roi (c # cs) b =
     (if length (classes b) \<le> c then Inl IndexError
      else roi_classes roi cs
             (if classes b ! c \<noteq> 0 \<and> roi_outside roi b then zero_score c b else b))"

fun roi_boxes :: "int list \<Rightarrow> nat \<Rightarrow> BoundBox list \<Rightarrow> error + BoundBox list" where
  "roi_boxes roi n [] = Inr []"
| "roi_boxes roi n (b # bs) =
     then_do (roi_classes roi [0..<n] b) (\<lambda>b'.
     then_do (roi_boxes roi n bs) (\<lambda>bs'. Inr (b' # bs')))"

text \<open>
  \<open>CustomDetectionUtils.RoI\<close>. A missing or empty region, or one without exactly four
  entries, leaves the boxes alone. The class range is that of \<open>boxes[0]\<close>, which the source
  only reads inside the loop over the boxes.
\<close>

definition RoI :: "BoundBox list \<Rightarrow> int list option \<Rightarrow> error + BoundBox list" where
  "RoI boxes region_of_interest =
     (case region_of_interest of
        None \<Rightarrow> Inr boxes
      | Some roi \<Rightarrow>
          if roi \<noteq> [] \<and> length roi = 4 \<and> boxes \<noteq> []
          then roi_boxes roi (length (classes (hd boxes))) boxes
          else Inr boxes)"

section \<open>Decoding the network output\<close>

text \<open>\<open>CustomDetectionUtils._sigmoid\<close>.\<close>

definition sigmoid :: "real \<Rightarrow> real" where
  "sigmoid x = 1 / (1 + exp (- x))"

text \<open>The constant \<open>nb_box = 3\<close> of \<open>decode_netout\<close>: the anchors per grid cell.\<close>

definition nb_box :: nat where
  "nb_box = 3"

text \<open>
  One detection scale: rows of columns of channel vectors. An ndarray is rectangular;
  \<open>is_tensor\<close> says so of the nested list.
\<close>

type_synonym tensor = "real list list list"

definition is_tensor :: "tensor \<Rightarrow> bool" where
  "is_tensor netout =
     (\<forall>row \<in> set netout. length row = length (hd netout)
        \<and> (\<forall>cell \<in> set row. length cell = length (hd (hd netout))))"

text \<open>\<open>netout.reshape((grid_h, grid_w, nb_box, -1))\<close> on one cell: \<open>nb_box\<close> vectors of \<open>k\<close> channels.\<close>

definition reshape_cell :: "nat \<Rightarrow> real list \<Rightarrow> real list list" where
  "reshape_cell k cell = map (\<lambda>b. take k (drop (b * k) cell)) [0..<nb_box]"

text \<open>The slice updates \<open>a[..., :n] = f(a[..., :n])\<close> and \<open>a[..., n:] = f(a[..., n:])\<close>.\<close>

definition map_upto :: "nat \<Rightarrow> (real \<Rightarrow> real) \<Rightarrow> real list \<Rightarrow> real list" where
  "map_upto n f v = map f (take n v) @ drop n v"

definition map_from :: "nat \<Rightarrow> (real \<Rightarrow> real) \<Rightarrow> real list \<Rightarrow> real list" where
  "map_from n f v = take n v @ map f (drop n v)"

text \<open>
  The four in-place updates of \<open>netout\<close> before the loops, on one anchor vector:
  sigmoid of channels 0 and 1, sigmoid of channels 4 onwards, class channels times
  objectness, class channels times the mask \<open>> obj_thresh\<close>.
\<close>

definition activate :: "real \<Rightarrow> real list \<Rightarrow> real list" where
  "activate obj_thresh v =
     (let s1 = map_upto 2 sigmoid v;
          s2 = map_from 4 sigmoid s1;
          s3 = map_from 5 (\<lambda>p. (s2 ! 4) * p) s2
      in map_from 5 (\<lambda>p. p * (if obj_thresh < p then 1 else 0)) s3)"

text \<open>Running a loop body that may raise over a list, appending what each round yields.\<close>

fun collect :: "('a \<Rightarrow> error + 'b list) \<Rightarrow> 'a list \<Rightarrow> error + 'b list" where
  "collect f [] = Inr []"
| "collect f (x # xs) =
     then_do (f x) (\<lambda>ys. then_do (collect f xs) (\<lambda>zs. Inr (ys @ zs)))"

text \<open>
  The body of the innermost loop of \<open>decode_netout\<close>, \<open>v\<close> the activated vector of
  anchor \<open>b\<close> in cell \<open>(row, col)\<close>. \<open>anchors\<close> is a Python list and raises out of range;
  the division by \<open>net_w\<close> or \<open>net_h\<close> is numpy's.
\<close>

definition decode_anchor ::
  "real list \<Rightarrow> real \<Rightarrow> int \<Rightarrow> int \<Rightarrow> nat \<Rightarrow> nat \<Rightarrow> nat \<Rightarrow> nat \<Rightarrow> nat \<Rightarrow> real list
     \<Rightarrow> error + BoundBox list" where
  "decode_anchor anchors obj_thresh net_h net_w grid_h grid_w row col b v =
     (let objectness = v ! 4 in
      if obj_thresh < objectness then
        (let x = (real col + v ! 0) / real grid_w;
             y = (real row + v ! 1) / real grid_h
         in if length anchors \<le> 2 * b + 0 then Inl IndexError
            else if net_w = 0 then Inl NonFiniteFloat
            else if length anchors \<le> 2 * b + 1 then Inl IndexError
            else if net_h = 0 then Inl NonFiniteFloat
            else (let w = anchors ! (2 * b + 0) * exp (v ! 2) / real_of_int net_w;
                      h = anchors ! (2 * b + 1) * exp (v ! 3) / real_of_int net_h
                  in Inr [new_BoundBox (x - w / 2) (y - h / 2) (x + w / 2) (y + h / 2)
                            objectness (drop 5 v)]))
      else Inr [])"

text \<open>
  \<open>CustomDetectionUtils.decode_netout\<close>. numpy cannot infer the \<open>-1\<close> of the reshape for
  an empty grid or a channel count that \<open>nb_box\<close> does not divide; with fewer than five
  channels per anchor \<open>netout[..., 4]\<close> is out of range.
\<close>

definition decode_netout ::
  "tensor \<Rightarrow> real list \<Rightarrow> real \<Rightarrow> int \<Rightarrow> int \<Rightarrow> error + BoundBox list" where
  "decode_netout netout anchors obj_thresh net_h net_w =
     (let grid_h = length netout;
          grid_w = (if netout = [] then 0 else length (hd netout))
      in if grid_h = 0 \<or> grid_w = 0 \<or> \<not> nb_box dvd length (hd (hd netout))
         then Inl (ValueError CannotReshape)
         else (let k = length (hd (hd netout)) div nb_box in
               if k < 5 then Inl IndexError
               else (let cells = map (map (\<lambda>cell. map (activate obj_thresh) (reshape_cell k cell))) netout
                     in collect (\<lambda>row.
                          collect (\<lambda>col.
                            collect (\<lambda>b.
                              decode_anchor anchors obj_thresh net_h net_w grid_h grid_w row col b
                                (cells ! row ! col ! b))
                              [0..<nb_box])
                            [0..<grid_w])
                          [0..<grid_h])))"

section \<open>Correcting the boxes to the image\<close>

text \<open>
  A floating-point number: a real number, an infinity of either sign, or not a number.
\<close>

datatype float_value = Finite real | Infinity | NotANumber

text \<open>
  Python's \<open>int(x)\<close> on a float: truncation towards zero, \<open>OverflowError\<close> on an infinity,
  \<open>ValueError\<close> on not a number.
\<close>

definition int_of_float :: "float_value \<Rightarrow> error + int" where
  "int_of_float x =
     (case x of
        Finite r \<Rightarrow> Inr (py_int r)
      | Infinity \<Rightarrow> Inl OverflowError
      | NotANumber \<Rightarrow> Inl (ValueError CannotConvertNaN))"

text \<open>
  The products \<open>boxes[i].xmin * image_w\<close> of \<open>correct_yolo_boxes\<close> are floating-point
  products of a corner and an integer. Such a product is rounded, and it is infinite or
  not a number when the corner is (\<open>np.exp\<close> has overflowed in the decoder) or when the
  product overflows. How it is rounded and where it overflows depends on the dtype of the
  network output, which the source does not fix, so the product is a parameter of the
  model: \<open>float_times x n\<close> is the float that the code holds for the product of the corner
  whose value in the model is \<open>x\<close> and the integer \<open>n\<close>.
\<close>

type_synonym float_product = "real \<Rightarrow> int \<Rightarrow> float_value"

text \<open>
  One round of the loop of \<open>correct_yolo_boxes\<close>. The offsets and scales are computed with
  Python's division and only feed a printed warning; \<open>new_w, new_h = net_w, net_h\<close>. The four
  corners are converted in the order of the source, \<open>xmin\<close>, \<open>xmax\<close>, \<open>ymin\<close>, \<open>ymax\<close>, and
  the first conversion that raises ends the function.
\<close>

definition correct_box ::
  "float_product \<Rightarrow> int \<Rightarrow> int \<Rightarrow> int \<Rightarrow> int \<Rightarrow> BoundBox \<Rightarrow> error + BoundBox list" where
  "correct_box float_times image_h image_w net_h net_w b =
     (let new_w = net_w; new_h = net_h in
      then_do (py_truediv (real_of_int (net_w - new_w) / 2) (real_of_int net_w)) (\<lambda>x_offset.
      then_do (py_truediv (real_of_int new_w) (real_of_int net_w)) (\<lambda>x_scale.
      then_do (py_truediv (real_of_int (net_h - new_h) / 2) (real_of_int net_h)) (\<lambda>y_offset.
      then_do (py_truediv (real_of_int new_h) (real_of_int net_h)) (\<lambda>y_scale.
      then_do (int_of_float (float_times (xmin b) image_w)) (\<lambda>x0.
      then_do (int_of_float (float_times (xmax b) image_w)) (\<lambda>x1.
      then_do (int_of_float (float_times (ymin b) image_h)) (\<lambda>y0.
      then_do (int_of_float (float_times (ymax b) image_h)) (\<lambda>y1.
        Inr [b\<lparr> xmin := real_of_int x0, xmax := real_of_int x1,
                 ymin := real_of_int y0, ymax := real_of_int y1 \<rparr>])))))))))"

definition correct_yolo_boxes ::
  "float_product \<Rightarrow> BoundBox list \<Rightarrow> int \<Rightarrow> int \<Rightarrow> int \<Rightarrow> int \<Rightarrow> error + BoundBox list" where
  "correct_yolo_boxes float_times boxes image_h image_w net_h net_w =
     collect (correct_box float_times image_h image_w net_h net_w) boxes"

section \<open>Selecting boxes\<close>

text \<open>
  \<open>CustomDetectionUtils.get_boxes\<close>. The three parallel lists of the source are kept as one
  list of triples, which is what the caller's \<open>zip\<close> makes of them.
\<close>

definition get_box_labels ::
  "string list \<Rightarrow> real \<Rightarrow> BoundBox \<Rightarrow> error + (BoundBox \<times> string \<times> real) list" where
  "get_box_labels labels thresh box =
     collect (\<lambda>i. if length (classes box) \<le> i then Inl IndexError
                   else if thresh < classes box ! i then Inr [(box, labels ! i, classes box ! i * 100)]
                   else Inr [])
       [0..<length labels]"

definition get_boxes ::
  "BoundBox list \<Rightarrow> string list \<Rightarrow> real \<Rightarrow> error + (BoundBox \<times> string \<times> real) list" where
  "get_boxes boxes labels thresh = collect (get_box_labels labels thresh) boxes"

section \<open>Detection in one image\<close>

text \<open>
  The dictionaries of \<open>output_objects_array\<close>. The box points are Python ints after the
  correction, embedded in \<open>real\<close> as in the box.
\<close>

record detection =
  name :: string
  percentage_probability :: real
  box_points :: "real list"

text \<open>
  \<open>np.max(a, 0)\<close> on a scalar \<open>a\<close>: the second positional argument of \<open>np.max\<close> is the
  axis, and numpy accepts the axes 0 and -1 for a 0-dimensional operand and reduces over
  its one element. This is numpy's behaviour, taken as given.
\<close>

definition np_max :: "real \<Rightarrow> int \<Rightarrow> error + real" where
  "np_max a axis = (if axis = 0 \<or> axis = -1 then Inr a else Inl AxisError)"

definition to_object :: "BoundBox \<times> string \<times> real \<Rightarrow> error + detection list" where
  "to_object entry =
     (case entry of (object_box, object_label, object_score) \<Rightarrow>
        then_do (np_max (xmin object_box) 0) (\<lambda>x0.
        then_do (np_max (ymin object_box) 0) (\<lambda>y0.
          Inr [\<lparr> name = object_label, percentage_probability = object_score,
                  box_points = [x0, y0, xmax object_box, ymax object_box] \<rparr>])))"

text \<open>
  The state of a \<open>CustomObjectDetection\<close> that detection reads. \<open>model_loaded\<close> is
  \<open>self.__model is not None\<close>; the network itself is the function \<open>predict\<close> given to the
  detection, one tensor per scale (\<open>result[0]\<close> of each output).
\<close>

record detector =
  model_loaded :: bool
  model_type :: string
  model_labels :: "string list"
  model_anchors :: "real list list"
  input_size :: int

text \<open>The pixel array, of which the detection reads \<open>image.shape\<close>.\<close>

record image =
  height :: int
  width :: int

text \<open>
  The suffix test \<open>re.subn(r'\.(?:jpe?g|png|tif|webp|PPM|PGM)$', '', path, flags=re.I)\<close>:
  a substitution is made when the path, ASCII case ignored, ends in one of the suffixes,
  at its end or before one final newline.
\<close>

definition lower_char :: "char \<Rightarrow> char" where
  "lower_char c =
     (if 65 \<le> (of_char c :: nat) \<and> (of_char c :: nat) \<le> 90 then char_of (of_char c + 32 :: nat) else c)"

definition ends_with :: "string \<Rightarrow> string \<Rightarrow> bool" where
  "ends_with s suffix =
     (length suffix \<le> length s \<and> drop (length s - length suffix) s = suffix)"

definition has_image_suffix :: "string \<Rightarrow> bool" where
  "has_image_suffix path =
     (let p = map lower_char path;
          q = (if p \<noteq> [] \<and> last p = CHR 0x0A then butlast p else p)
      in \<exists>suffix \<in> set [''.jpg'', ''.jpeg'', ''.png'', ''.tif'', ''.webp'', ''.ppm'', ''.pgm''].
           ends_with p suffix \<or> ends_with q suffix)"

text \<open>The loop over \<open>enumerate(yolo_results)\<close>: \<open>self.__model_anchors[idx]\<close> is read first.\<close>

definition decode_scales :: "detector \<Rightarrow> real \<Rightarrow> tensor list \<Rightarrow> error + BoundBox list" where
  "decode_scales det obj_thresh yolo_results =
     collect (\<lambda>idx. if length (model_anchors det) \<le> idx then Inl IndexError
                     else decode_netout (yolo_results ! idx) (model_anchors det ! idx) obj_thresh
                            (input_size det) (input_size det))
       [0..<length yolo_results]"

text \<open>
  The yolov3 branch from the prediction to \<open>output_objects_array\<close>: decode every scale,
  correct, filter by the region of interest, suppress, select, build the dictionaries.
\<close>

definition select_boxes ::
  "float_product \<Rightarrow> detector \<Rightarrow> image \<Rightarrow> tensor list \<Rightarrow> real \<Rightarrow> real \<Rightarrow> int list option
     \<Rightarrow> error + (BoundBox \<times> string \<times> real) list" where
  "select_boxes float_times det img yolo_results object_threshold nms_threshold region_of_interest =
     then_do (decode_scales det object_threshold yolo_results) (\<lambda>boxes.
     then_do (correct_yolo_boxes float_times boxes (height img) (width img)
                (input_size det) (input_size det)) (\<lambda>boxes.
     then_do (RoI boxes region_of_interest) (\<lambda>boxes.
     then_do (do_nms boxes nms_threshold) (\<lambda>boxes.
       get_boxes boxes (model_labels det) object_threshold))))"

definition detect_objects ::
  "float_product \<Rightarrow> detector \<Rightarrow> image \<Rightarrow> tensor list \<Rightarrow> real \<Rightarrow> real \<Rightarrow> int list option
     \<Rightarrow> error + detection list" where
  "detect_objects float_times det img yolo_results object_threshold nms_threshold region_of_interest =
     then_do (select_boxes float_times det img yolo_results object_threshold nms_threshold
                region_of_interest)
       (collect to_object)"

text \<open>
  What \<open>detectObjectsFromImage\<close> returns. The pixels of the drawn image and of the
  extracted objects are not modelled: an extracted object is given by its box points.
\<close>

datatype image_result =
    ReturnsNone
  | ReturnsObjects "detection list"
  | ReturnsObjectsExtracted "detection list" "real list list"
  | ReturnsImageObjects "detection list"
  | ReturnsImageObjectsExtracted "detection list" "real list list"

text \<open>
  \<open>CustomObjectDetection.detectObjectsFromImage\<close>. \<open>input_image\<close> is the pixel array the
  detection works on: the array passed with \<open>input_type = ''array''\<close>, or what
  \<open>cv2.imread\<close> gives for the path with \<open>''file''\<close>, \<open>None\<close> for an unreadable file, on
  which \<open>image.copy()\<close> raises. File writes and drawing leave no trace in the result.
  \<open>float_times\<close> is the floating-point product of the correction.
\<close>

definition detectObjectsFromImage ::
  "float_product \<Rightarrow> detector \<Rightarrow> (image \<Rightarrow> tensor list) \<Rightarrow> image option \<Rightarrow> string \<Rightarrow> string
     \<Rightarrow> string \<Rightarrow> bool \<Rightarrow> real \<Rightarrow> real \<Rightarrow> int list option \<Rightarrow> error + image_result" where
  "detectObjectsFromImage float_times det predict input_image output_image_path input_type output_type
       extract_detected_objects minimum_percentage_probability nms_threshold region_of_interest =
     (if \<not> model_loaded det then Inl (ValueError ModelNotLoaded)
      else if output_type = ''file'' \<and> \<not> has_image_suffix output_image_path
        then Inl (ValueError BadOutputPath)
      else if input_type \<noteq> ''file'' \<and> input_type \<noteq> ''array'' then Inl (ValueError BadInputType)
      else (case input_image of
              None \<Rightarrow> Inl AttributeError
            | Some img \<Rightarrow>
                if model_type det = ''yolov3'' then
                  then_do (detect_objects float_times det img (predict img)
                             (minimum_percentage_probability / 100) nms_threshold region_of_interest)
                    (\<lambda>output_objects_array.
                       let detected_objects_image_array = map box_points output_objects_array in
                       if extract_detected_objects then
                         (if output_type = ''file''
                            then Inr (ReturnsObjectsExtracted output_objects_array detected_objects_image_array)
                          else if output_type = ''array''
                            then Inr (ReturnsImageObjectsExtracted output_objects_array detected_objects_image_array)
                          else Inr ReturnsNone)
                       else
                         (if output_type = ''file'' then Inr (ReturnsObjects output_objects_array)
                          else if output_type = ''array'' then Inr (ReturnsImageObjects output_objects_array)
                          else Inr ReturnsNone))
                else Inr ReturnsNone))"

section \<open>Detection in a video\<close>

text \<open>A Python dictionary from label to count, in insertion order.\<close>

type_synonym counts = "(string \<times> int) list"

text \<open>\<open>d[k] += v\<close> with the \<open>except\<close> branch \<open>d[k] = v\<close> for a new key.\<close>

definition add_count :: "string \<Rightarrow> int \<Rightarrow> counts \<Rightarrow> counts" where
  "add_count k v d =
     (case map_of d k of
        None \<Rightarrow> d @ [(k, v)]
      | Some _ \<Rightarrow> map (\<lambda>(k', t). if k' = k then (k', t + v) else (k', t)) d)"

definition count_objects :: "detection list \<Rightarrow> counts" where
  "count_objects output_objects_array =
     fold (\<lambda>eachItem d. add_count (name eachItem) 1 d) output_objects_array []"

definition sum_counts :: "counts list \<Rightarrow> counts" where
  "sum_counts counting_array =
     fold (\<lambda>eachCountingDict d. fold (\<lambda>(k, v) d'. add_count k v d') eachCountingDict d)
       counting_array []"

text \<open>\<open>int(total / window)\<close> for every label of a window.\<close>

definition truncated_average :: "counts \<Rightarrow> int \<Rightarrow> error + counts" where
  "truncated_average d window =
     collect (\<lambda>(k, v). then_do (py_truediv (real_of_int v) (real_of_int window))
                          (\<lambda>q. Inr [(k, py_int q)])) d"

text \<open>\<open>total / n_frame\<close> for every label of the video.\<close>

definition average :: "counts \<Rightarrow> int \<Rightarrow> error + (string \<times> real) list" where
  "average d n =
     collect (\<lambda>(k, v). then_do (py_truediv (real_of_int v) (real_of_int n))
                          (\<lambda>q. Inr [(k, q)])) d"

text \<open>Reading a dictionary at a list of keys: a missing key raises.\<close>

definition lookup_all :: "(int \<rightharpoonup> 'a) \<Rightarrow> int list \<Rightarrow> error + 'a list" where
  "lookup_all d ks =
     collect (\<lambda>k. case d k of None \<Rightarrow> Inl KeyError | Some v \<Rightarrow> Inr [v]) ks"

text \<open>
  The arguments of \<open>detectObjectsFromVideo\<close> that steer the scan; a callback argument is
  \<open>True\<close> when a function was passed.
\<close>

record video_options =
  frame_detection_interval :: int
  log_progress :: bool
  save_detected_video :: bool
  performance_mode :: bool
  per_frame_function :: bool
  per_second_function :: bool
  per_minute_function :: bool
  video_complete_function :: bool
  return_detected_frame :: bool
  detection_timeout :: "int option"

text \<open>
  A call of one of the user's functions with its arguments; the last flag of the first
  three says whether the detected frame was passed along.
\<close>

datatype callback =
    PerFrame int "detection list" counts bool
  | PerSecond int "detection list list" "counts list" counts bool
  | PerMinute int "detection list list" "counts list" counts bool
  | VideoComplete "detection list list" "counts list" "(string \<times> real) list"

text \<open>
  The variables of the scan. \<open>calls\<close> is the trace of the callbacks made so far, each with
  the value of \<open>n_frame\<close> at the call.
\<close>

record scan_state =
  n_frame :: int
  output_frames_dict :: "int \<rightharpoonup> detection list"
  output_frames_count_dict :: "int \<rightharpoonup> counts"
  detection_timeout_count :: int
  calls :: "(int \<times> callback) list"

datatype frame_outcome = Continue | Break | Raise error

text \<open>\<open>n_frame == 1 or n_frame % frame_detection_interval == 0\<close>, short-circuit included.\<close>

definition detection_due :: "int \<Rightarrow> int \<Rightarrow> error + bool" where
  "detection_due n interval =
     (if n = 1 then Inr True else then_do (py_mod n interval) (\<lambda>r. Inr (r = 0)))"

text \<open>\<open>callback and n_frame != 1 and n_frame % window == 0\<close>.\<close>

definition window_due :: "bool \<Rightarrow> int \<Rightarrow> int \<Rightarrow> error + bool" where
  "window_due supplied n window =
     (if supplied \<and> n \<noteq> 1 then then_do (py_mod n window) (\<lambda>r. Inr (r = 0)) else Inr False)"

text \<open>
  The summary handed to the per-second and per-minute functions at frame \<open>n\<close>: the records
  of the frames \<open>idx + 1\<close> with \<open>idx\<close> in \<open>range(n)\<close> and \<open>idx >= n - window\<close>, the summed
  counts divided by the window, and the number of the second or minute.
\<close>

definition window_summary ::
  "scan_state \<Rightarrow> int \<Rightarrow> int
     \<Rightarrow> error + (int \<times> detection list list \<times> counts list \<times> counts)" where
  "window_summary st n window =
     (let keys = map (\<lambda>idx. idx + 1) (filter (\<lambda>idx. n - window \<le> idx) [0..n - 1]) in
      then_do (lookup_all (output_frames_dict st) keys) (\<lambda>object_array.
      then_do (lookup_all (output_frames_count_dict st) keys) (\<lambda>counting_array.
      then_do (truncated_average (sum_counts counting_array) window) (\<lambda>counting.
      then_do (py_truediv (real_of_int n) (real_of_int window)) (\<lambda>position.
        Inr (py_int position, object_array, counting_array, counting))))))"

definition record_frame :: "scan_state \<Rightarrow> detection list \<Rightarrow> scan_state" where
  "record_frame st output_objects_array =
     st\<lparr> output_frames_dict := (output_frames_dict st)(n_frame st \<mapsto> output_objects_array),
         output_frames_count_dict :=
           (output_frames_count_dict st)(n_frame st \<mapsto> count_objects output_objects_array) \<rparr>"

definition call :: "scan_state \<Rightarrow> callback \<Rightarrow> scan_state" where
  "call st c = st\<lparr> calls := calls st @ [(n_frame st, c)] \<rparr>"

text \<open>
  The timeout test at the head of a frame outside performance mode: \<open>if detection_timeout\<close>
  is false for \<open>None\<close> and for 0.
\<close>

definition check_timeout :: "video_options \<Rightarrow> int \<Rightarrow> scan_state \<Rightarrow> frame_outcome \<times> scan_state" where
  "check_timeout opts frames_per_second st =
     (case detection_timeout opts of
        None \<Rightarrow> (Continue, st)
      | Some limit \<Rightarrow>
          if limit = 0 then (Continue, st)
          else (case py_mod (n_frame st) frames_per_second of
                  Inl e \<Rightarrow> (Raise e, st)
                | Inr r \<Rightarrow>
                    (let st' = (if r = 0
                                then st\<lparr> detection_timeout_count := detection_timeout_count st + 1 \<rparr>
                                else st)
                     in if limit \<le> detection_timeout_count st' then (Break, st') else (Continue, st'))))"

text \<open>The per-second and the per-minute block, which differ in the window and the function.\<close>

definition fire_window ::
  "bool \<Rightarrow> (int \<Rightarrow> detection list list \<Rightarrow> counts list \<Rightarrow> counts \<Rightarrow> bool \<Rightarrow> callback)
     \<Rightarrow> video_options \<Rightarrow> int \<Rightarrow> scan_state \<Rightarrow> frame_outcome \<times> scan_state" where
  "fire_window supplied function opts window st =
     (case window_due supplied (n_frame st) window of
        Inl e \<Rightarrow> (Raise e, st)
      | Inr due \<Rightarrow>
          if \<not> due then (Continue, st)
          else (case window_summary st (n_frame st) window of
                  Inl e \<Rightarrow> (Raise e, st)
                | Inr (position, object_array, counting_array, counting) \<Rightarrow>
                    (Continue, call st (function position object_array counting_array counting
                                          (return_detected_frame opts)))))"

text \<open>
  What a frame records: the detections when detection is due and the detector returns,
  nothing when it is not due or the detector raises (the bare \<open>except\<close> around the call).
\<close>

definition frame_objects :: "bool \<Rightarrow> error + detection list \<Rightarrow> detection list" where
  "frame_objects due detected =
     (if due then (case detected of Inl _ \<Rightarrow> [] | Inr output_objects_array \<Rightarrow> output_objects_array)
      else [])"

text \<open>
  The body of the \<open>while\<close> loop for a frame that was read. \<open>detect\<close> is the call of
  \<open>detectObjectsFromImage\<close> on the frame: the detections, or the exception it raises.
\<close>

definition scan_frame ::
  "video_options \<Rightarrow> int \<Rightarrow> ('f \<Rightarrow> error + detection list) \<Rightarrow> 'f \<Rightarrow> scan_state
     \<Rightarrow> frame_outcome \<times> scan_state" where
  "scan_frame opts frames_per_second detect frame st0 =
     (let st = st0\<lparr> n_frame := n_frame st0 + 1 \<rparr>;
          logged = (if log_progress opts
                    then py_mod (n_frame st) (frame_detection_interval opts) else Inr 0)
      in case logged of
           Inl e \<Rightarrow> (Raise e, st)
         | Inr _ \<Rightarrow>
             if performance_mode opts then
               (case detection_due (n_frame st) (frame_detection_interval opts) of
                  Inl e \<Rightarrow> (Raise e, st)
                | Inr _ \<Rightarrow> (Continue, st))
             else
               (let timed = check_timeout opts frames_per_second st in
                if fst timed \<noteq> Continue then timed
                else (case detection_due (n_frame st) (frame_detection_interval opts) of
                        Inl e \<Rightarrow> (Raise e, snd timed)
                      | Inr due \<Rightarrow>
                          (let output_objects_array = frame_objects due (detect frame);
                               st2 = record_frame (snd timed) output_objects_array;
                               st3 = (if per_frame_function opts \<and> due
                                      then call st2 (PerFrame (n_frame st2) output_objects_array
                                                       (count_objects output_objects_array)
                                                       (return_detected_frame opts))
                                      else st2);
                               second = fire_window (per_second_function opts) PerSecond opts
                                          frames_per_second st3
                           in if fst second \<noteq> Continue then second
                              else fire_window (per_minute_function opts) PerMinute opts
                                     (frames_per_second * 60) (snd second)))))"

text \<open>
  How the \<open>while\<close> loop ends: no frame is left (\<open>ret\<close> is false), the timeout breaks it,
  or an exception leaves the function.
\<close>

datatype loop_exit = Exhausted | TimedOut | Raised error

fun scan_frames ::
  "video_options \<Rightarrow> int \<Rightarrow> ('f \<Rightarrow> error + detection list) \<Rightarrow> 'f list \<Rightarrow> scan_state
     \<Rightarrow> loop_exit \<times> scan_state" where
  "scan_frames opts frames_per_second detect [] st = (Exhausted, st)"
| "scan_frames opts frames_per_second detect (frame # rest) st =
     (case scan_frame opts frames_per_second detect frame st of
        (Continue, st') \<Rightarrow> scan_frames opts frames_per_second detect rest st'
      | (Break, st') \<Rightarrow> (TimedOut, st')
      | (Raise e, st') \<Rightarrow> (Raised e, st'))"

text \<open>The block after the loop that builds the arguments of \<open>video_complete_function\<close>.\<close>

definition video_summary :: "scan_state \<Rightarrow> error + callback" where
  "video_summary st =
     (let keys = map (\<lambda>idx. idx + 1) [0..n_frame st - 1] in
      then_do (lookup_all (output_frames_dict st) keys) (\<lambda>object_array.
      then_do (lookup_all (output_frames_count_dict st) keys) (\<lambda>counting_array.
      then_do (average (sum_counts counting_array) (n_frame st)) (\<lambda>counting.
        Inr (VideoComplete object_array counting_array counting)))))"

definition initial_state :: scan_state where
  "initial_state =
     \<lparr> n_frame = 0, output_frames_dict = Map.empty, output_frames_count_dict = Map.empty,
       detection_timeout_count = 0, calls = [] \<rparr>"

text \<open>
  A run of \<open>detectObjectsFromVideo\<close>: what it returns or raises, how the loop ended, and
  the variables at the end.
\<close>

record video_run =
  returned :: "error + string option"
  ended :: loop_exit
  final :: scan_state

text \<open>
  \<open>CustomVideoObjectDetection.detectObjectsFromVideo\<close> on a video given by its frames and
  its frame rate.
\<close>

definition detectObjectsFromVideo ::
  "string \<Rightarrow> video_options \<Rightarrow> string \<Rightarrow> int \<Rightarrow> ('f \<Rightarrow> error + detection list) \<Rightarrow> 'f list
     \<Rightarrow> video_run" where
  "detectObjectsFromVideo video_model_type opts output_file_path frames_per_second detect frames =
     (if video_model_type \<noteq> ''yolov3''
      then \<lparr> returned = Inr None, ended = Exhausted, final = initial_state \<rparr>
      else (let scanned = scan_frames opts frames_per_second detect frames initial_state;
                st = snd scanned;
                output_video_filepath = output_file_path @ ''.avi'';
                result = Inr (if save_detected_video opts then Some output_video_filepath else None)
            in case fst scanned of
                 Raised e \<Rightarrow> \<lparr> returned = Inl e, ended = Raised e, final = st \<rparr>
               | exit \<Rightarrow>
                   if video_complete_function opts then
                     (case video_summary st of
                        Inl e \<Rightarrow> \<lparr> returned = Inl e, ended = exit, final = st \<rparr>
                      | Inr c \<Rightarrow> \<lparr> returned = result, ended = exit, final = call st c \<rparr>)
                   else \<lparr> returned = result, ended = exit, final = st \<rparr>))"

text \<open>The frames at which a callback of one kind was made, in order.\<close>

definition is_per_second :: "callback \<Rightarrow> bool" where
  "is_per_second c = (case c of PerSecond _ _ _ _ _ \<Rightarrow> True | _ \<Rightarrow> False)"

definition is_video_complete :: "callback \<Rightarrow> bool" where
  "is_video_complete c = (case c of VideoComplete _ _ _ \<Rightarrow> True | _ \<Rightarrow> False)"

definition per_second_frames :: "(int \<times> callback) list \<Rightarrow> int list" where
  "per_second_frames cs = map fst (filter (\<lambda>(n, c). is_per_second c) cs)"

definition video_complete_calls :: "(int \<times> callback) list \<Rightarrow> callback list" where
  "video_complete_calls cs = filter is_video_complete (map snd cs)"

section \<open>Notions used in the statements\<close>

text \<open>The corners of a box, which neither the region filter nor the suppression touch.\<close>

definition geometry :: "BoundBox \<Rightarrow> real \<times> real \<times> real \<times> real" where
  "geometry b = (xmin b, ymin b, xmax b, ymax b)"

definition same_geometry :: "BoundBox list \<Rightarrow> BoundBox list \<Rightarrow> bool" where
  "same_geometry bs bs' =
     (length bs' = length bs \<and>
      (\<forall>k < length bs. geometry (bs' ! k) = geometry (bs ! k)
                       \<and> length (classes (bs' ! k)) = length (classes (bs ! k))))"

text \<open>Every box of \<open>bs'\<close> is the box of \<open>bs\<close> at its place, or that box with score \<open>c\<close> zeroed.\<close>

definition only_zeroed :: "nat \<Rightarrow> BoundBox list \<Rightarrow> BoundBox list \<Rightarrow> bool" where
  "only_zeroed c bs bs' =
     (length bs' = length bs
      \<and> (\<forall>k < length bs. bs' ! k = bs ! k \<or> bs' ! k = zero_score c (bs ! k)))"

text \<open>
  No two boxes with a nonzero score for class \<open>c\<close> overlap by \<open>t\<close> or more, in the direction
  in which the sweep compares them.
\<close>

definition separated :: "nat \<Rightarrow> real \<Rightarrow> BoundBox list \<Rightarrow> bool" where
  "separated c t bs =
     (\<forall>a < length bs. \<forall>b < length bs.
        a \<noteq> b \<and> classes (bs ! a) ! c \<noteq> 0 \<and> classes (bs ! b) ! c \<noteq> 0 \<longrightarrow>
          bbox_iou (bs ! a) (bs ! b) < t \<or> bbox_iou (bs ! b) (bs ! a) < t)"

text \<open>
  An input on which \<open>decode_netout\<close> raises nothing: a non-empty grid, \<open>nb_box\<close> anchors
  of at least five channels per cell, an anchor pair for each, and a network size that is
  not zero.
\<close>

definition decodable :: "tensor \<Rightarrow> real list \<Rightarrow> int \<Rightarrow> int \<Rightarrow> bool" where
  "decodable netout anchors net_h net_w =
     (netout \<noteq> [] \<and> hd netout \<noteq> [] \<and> nb_box dvd length (hd (hd netout))
      \<and> 5 \<le> length (hd (hd netout)) div nb_box
      \<and> 2 * nb_box \<le> length anchors \<and> net_h \<noteq> 0 \<and> net_w \<noteq> 0)"

text \<open>Anchor sizes are not negative.\<close>

definition anchors_ok :: "real list \<Rightarrow> bool" where
  "anchors_ok anchors = (\<forall>a \<in> set anchors. 0 \<le> a)"

text \<open>
  The four products of a box in the order in which \<open>correct_yolo_boxes\<close> converts them, and
  the exception of the first product of a list that is not finite.
\<close>

definition corner_products :: "float_product \<Rightarrow> int \<Rightarrow> int \<Rightarrow> BoundBox \<Rightarrow> float_value list" where
  "corner_products float_times image_h image_w b =
     [float_times (xmin b) image_w, float_times (xmax b) image_w,
      float_times (ymin b) image_h, float_times (ymax b) image_h]"

fun first_failure :: "float_value list \<Rightarrow> error option" where
  "first_failure [] = None"
| "first_failure (Finite r # ps) = first_failure ps"
| "first_failure (Infinity # ps) = Some OverflowError"
| "first_failure (NotANumber # ps) = Some (ValueError CannotConvertNaN)"

text \<open>
  The update of the four corners by \<open>correct_yolo_boxes\<close> when the four products are finite:
  each corner becomes its truncated product. \<open>value_of\<close> reads a finite float.
\<close>

definition value_of :: "float_value \<Rightarrow> real" where
  "value_of p = (case p of Finite r \<Rightarrow> r | Infinity \<Rightarrow> 0 | NotANumber \<Rightarrow> 0)"

definition scaled :: "float_product \<Rightarrow> int \<Rightarrow> int \<Rightarrow> BoundBox \<Rightarrow> BoundBox" where
  "scaled float_times image_h image_w b =
     b\<lparr> xmin := real_of_int (py_int (value_of (float_times (xmin b) image_w))),
        xmax := real_of_int (py_int (value_of (float_times (xmax b) image_w))),
        ymin := real_of_int (py_int (value_of (float_times (ymin b) image_h))),
        ymax := real_of_int (py_int (value_of (float_times (ymax b) image_h))) \<rparr>"


text \<open>
  Products for the examples: the exact product rounded by a function \<open>rnd\<close>; the exact
  product; and the exact product where it lies in the range of a double, infinite beyond
  it, and not a number for a corner beyond the range times 0.
\<close>

definition rounded_times :: "(real \<Rightarrow> real) \<Rightarrow> float_product" where
  "rounded_times rnd x n = Finite (rnd (x * real_of_int n))"

definition exact_times :: float_product where
  "exact_times = rounded_times (\<lambda>x. x)"



text \<open>One grid cell of three anchors and one class, all channels zero; the anchors of a scale.\<close>

definition zero_cell :: tensor where
  "zero_cell = [[replicate 18 0]]"

definition example_anchors :: "real list" where
  "example_anchors = [10, 13, 16, 30, 33, 23]"

text \<open>
  What \<open>zero_cell\<close> decodes to at threshold 0.2 and network size 416, and the same boxes
  corrected to an image 100 high and 200 wide.
\<close>

definition zero_cell_boxes :: "BoundBox list" where
  "zero_cell_boxes =
     [new_BoundBox (203/416) (403/832) (213/416) (429/832) (1/2) [1/4],
      new_BoundBox (25/52) (193/416) (27/52) (223/416) (1/2) [1/4],
      new_BoundBox (383/832) (393/832) (449/832) (439/832) (1/2) [1/4]]"






text \<open>Whether detection runs on frame \<open>n\<close>, and what the frame then records.\<close>

definition due_at :: "int \<Rightarrow> int \<Rightarrow> bool" where
  "due_at interval n = (n = 1 \<or> n mod interval = 0)"


text \<open>No key of the frame history lies beyond the frame counter; every frame up to it has its records.\<close>

definition keys_below :: "scan_state \<Rightarrow> bool" where
  "keys_below st = (\<forall>k. n_frame st < k \<longrightarrow> output_frames_dict st k = None)"

definition keys_filled :: "scan_state \<Rightarrow> bool" where
  "keys_filled st =
     (0 \<le> n_frame st
      \<and> (\<forall>k. 1 \<le> k \<and> k \<le> n_frame st \<longrightarrow>
             output_frames_dict st k \<noteq> None \<and> output_frames_count_dict st k \<noteq> None))"

text \<open>
  Options under which nothing but the end of the video stops the scan: no timeout, a
  detection interval and a frame rate that are not zero.
\<close>

definition runs_through :: "video_options \<Rightarrow> int \<Rightarrow> bool" where
  "runs_through opts frames_per_second =
     (\<not> performance_mode opts \<and> detection_timeout opts = None
      \<and> frame_detection_interval opts \<noteq> 0 \<and> frames_per_second \<noteq> 0)"



text \<open>
  Options for the examples: detection on every frame, all callbacks but the per-minute
  one, no timeout; the same with a timeout of one second. A detection, and a detector that
  raises on the frame numbered 1 (the second of a video whose frames are numbered from 0).
\<close>

definition scan_options :: video_options where
  "scan_options =
     \<lparr> frame_detection_interval = 1, log_progress = False, save_detected_video = True,
       performance_mode = False, per_frame_function = True, per_second_function = True,
       per_minute_function = False, video_complete_function = True,
       return_detected_frame = False, detection_timeout = None \<rparr>"

definition timeout_options :: video_options where
  "timeout_options = scan_options\<lparr> detection_timeout := Some 1 \<rparr>"

definition person :: detection where
  "person = \<lparr> name = ''person'', percentage_probability = 90, box_points = [0, 0, 10, 10] \<rparr>"

definition flaky_detect :: "nat \<Rightarrow> error + detection list" where
  "flaky_detect frame = (if frame = 1 then Inl IndexError else Inr [person])"


text \<open>
  The dictionary built from a selected box, with the corners of the box as they are.
\<close>

definition plain_object :: "BoundBox \<times> string \<times> real \<Rightarrow> detection" where
  "plain_object entry =
     (case entry of (object_box, object_label, object_score) \<Rightarrow>
        \<lparr> name = object_label, percentage_probability = object_score,
          box_points = [xmin object_box, ymin object_box, xmax object_box, ymax object_box] \<rparr>)"

text \<open>
  A loaded detector of one label and one scale whose first anchor is twice as wide as the
  network input, an image 100 high and 200 wide, and a network that answers \<open>zero_cell\<close>.
\<close>

definition example_detector :: detector where
  "example_detector =
     \<lparr> model_loaded = True, model_type = ''yolov3'', model_labels = [''person''],
       model_anchors = [[832, 416, 10, 13, 16, 30]], input_size = 416 \<rparr>"

definition example_image :: image where
  "example_image = \<lparr> height = 100, width = 200 \<rparr>"

definition example_predict :: "image \<Rightarrow> tensor list" where
  "example_predict img = [zero_cell]"

definition example_decoded :: "BoundBox list" where
  "example_decoded =
     [new_BoundBox (-1/2) 0 (3/2) 1 (1/2) [1/4],
      new_BoundBox (203/416) (403/832) (213/416) (429/832) (1/2) [1/4],
      new_BoundBox (25/52) (193/416) (27/52) (223/416) (1/2) [1/4]]"

definition example_pixels :: "BoundBox list" where
  "example_pixels =
     [new_BoundBox (-100) 0 300 100 (1/2) [1/4],
      new_BoundBox 97 48 102 51 (1/2) [1/4],
      new_BoundBox 96 46 103 53 (1/2) [1/4]]"

definition example_selected :: "(BoundBox \<times> string \<times> real) list" where
  "example_selected = map (\<lambda>b. (b, ''person'', 25)) example_pixels"

definition example_objects :: "detection list" where
  "example_objects =
     [\<lparr> name = ''person'', percentage_probability = 25, box_points = [-100, 0, 300, 100] \<rparr>,
      \<lparr> name = ''person'', percentage_probability = 25, box_points = [97, 48, 102, 51] \<rparr>,
      \<lparr> name = ''person'', percentage_probability = 25, box_points = [96, 46, 103, 53] \<rparr>]"

text \<open>Every box carries a score for class \<open>c\<close>.\<close>

definition has_class :: "nat \<Rightarrow> BoundBox list \<Rightarrow> bool" where
  "has_class c boxes = (\<forall>b \<in> set boxes. c < length (classes b))"

text \<open>All boxes carry as many class scores as the first.\<close>

definition same_class_count :: "BoundBox list \<Rightarrow> bool" where
  "same_class_count boxes = (\<forall>b \<in> set boxes. length (classes b) = length (classes (hd boxes)))"

text \<open>Boxes for the examples: a point, a square, a square apart from it, a nine-tenths slice.\<close>

definition point_box :: BoundBox where
  "point_box = new_BoundBox 0 0 0 0 1 [1]"

definition square_box :: BoundBox where
  "square_box = new_BoundBox 0 0 10 10 1 [9/10]"

definition far_box :: BoundBox where
  "far_box = new_BoundBox 20 20 30 30 1 [7/10]"

definition slice_box :: BoundBox where
  "slice_box = new_BoundBox 0 0 10 9 1 [8/10]"

section \<open>Properties of the intersection over union\<close>

lemma interval_overlap_sym:
  "x1 \<le> x2 \<Longrightarrow> x3 \<le> x4 \<Longrightarrow> interval_overlap (x1, x2) (x3, x4) = interval_overlap (x3, x4) (x1, x2)"
  by (auto simp: interval_overlap_def min_def)

lemma intersect_area_sym:
  "is_rect a \<Longrightarrow> is_rect b \<Longrightarrow> intersect_area a b = intersect_area b a"
  unfolding intersect_area_def is_rect_def
  by (simp add: interval_overlap_sym)

lemma bbox_iou_sym:
  "is_rect a \<Longrightarrow> is_rect b \<Longrightarrow> bbox_iou a b = bbox_iou b a"
  by (simp add: bbox_iou_def union_area_def intersect_area_sym add.commute)

lemma interval_overlap_self: "x1 \<le> x2 \<Longrightarrow> interval_overlap (x1, x2) (x1, x2) = x2 - x1"
  by (simp add: interval_overlap_def)

lemma interval_overlap_apart:
  "x1 \<le> x2 \<Longrightarrow> x3 \<le> x4 \<Longrightarrow> x2 < x3 \<or> x4 < x1 \<Longrightarrow> interval_overlap (x1, x2) (x3, x4) = 0"
  by (auto simp: interval_overlap_def)

section \<open>Properties of the suppression\<close>

lemma bbox_iou_zero_score [simp]:
  "bbox_iou (zero_score c a) b = bbox_iou a b"
  "bbox_iou a (zero_score c b) = bbox_iou a b"
  by (simp_all add: bbox_iou_def union_area_def intersect_area_def zero_score_def)

lemma zero_score_idem [simp]: "zero_score c (zero_score c b) = zero_score c b"
  by (simp add: zero_score_def)

lemma classes_zero_score_same:
  "c < length (classes b) \<Longrightarrow> classes (zero_score c b) ! c = 0"
  by (simp add: zero_score_def)

lemma classes_zero_score_other:
  "c' \<noteq> c \<Longrightarrow> classes (zero_score c b) ! c' = classes b ! c'"
  by (simp add: zero_score_def)

lemma length_classes_zero_score [simp]:
  "length (classes (zero_score c b)) = length (classes b)"
  by (simp add: zero_score_def)

lemma only_zeroed_refl: "only_zeroed c bs bs"
  by (simp add: only_zeroed_def)

lemma only_zeroed_trans:
  "only_zeroed c bs bs1 \<Longrightarrow> only_zeroed c bs1 bs2 \<Longrightarrow> only_zeroed c bs bs2"
  unfolding only_zeroed_def
  by (metis zero_score_idem)

lemma only_zeroed_update:
  "only_zeroed c bs (bs[j := zero_score c (bs ! j)])"
  unfolding only_zeroed_def
  by (cases "j < length bs") (simp_all add: nth_list_update)

lemma only_zeroed_iou:
  "only_zeroed c bs bs' \<Longrightarrow> i < length bs \<Longrightarrow> j < length bs \<Longrightarrow>
     bbox_iou (bs' ! i) (bs' ! j) = bbox_iou (bs ! i) (bs ! j)"
  unfolding only_zeroed_def
  by (metis bbox_iou_zero_score)

lemma only_zeroed_stays_zero:
  "only_zeroed c bs bs' \<Longrightarrow> k < length bs \<Longrightarrow> c < length (classes (bs ! k)) \<Longrightarrow>
     classes (bs ! k) ! c = 0 \<Longrightarrow> classes (bs' ! k) ! c = 0"
  unfolding only_zeroed_def
  by (metis classes_zero_score_same)

lemma only_zeroed_other_class:
  "only_zeroed c bs bs' \<Longrightarrow> k < length bs \<Longrightarrow> c' \<noteq> c \<Longrightarrow>
     classes (bs' ! k) ! c' = classes (bs ! k) ! c'"
  unfolding only_zeroed_def
  by (metis classes_zero_score_other)

lemma only_zeroed_length_classes:
  "only_zeroed c bs bs' \<Longrightarrow> k < length bs \<Longrightarrow>
     length (classes (bs' ! k)) = length (classes (bs ! k))"
  unfolding only_zeroed_def
  by (metis length_classes_zero_score)

lemma nms_inner_only_zeroed:
  "only_zeroed c bs (nms_inner c t si rest bs)"
proof (induction rest arbitrary: bs)
  case Nil
  show ?case by (simp add: only_zeroed_refl)
next
  case (Cons sj rest)
  show ?case
    using only_zeroed_trans [OF only_zeroed_update Cons.IH] Cons.IH
    by simp
qed

lemma nms_inner_untouched:
  "k \<notin> set rest \<Longrightarrow> nms_inner c t si rest bs ! k = bs ! k"
  by (induction rest arbitrary: bs) (auto simp: nth_list_update)

lemma nms_inner_zeroes:
  assumes "sj \<in> set rest" "sj < length bs" "si < length bs" "c < length (classes (bs ! sj))"
    and "t \<le> bbox_iou (bs ! si) (bs ! sj)"
  shows "classes (nms_inner c t si rest bs ! sj) ! c = 0"
  using assms
proof (induction rest arbitrary: bs)
  case Nil
  then show ?case by simp
next
  case (Cons x rest)
  let ?bs1 = "if t \<le> bbox_iou (bs ! si) (bs ! x) then bs[x := zero_score c (bs ! x)] else bs"
  have oz: "only_zeroed c bs ?bs1"
    by (simp add: only_zeroed_refl only_zeroed_update)
  have len: "length ?bs1 = length bs" by simp
  show ?case
  proof (cases "x = sj")
    case True
    with Cons.prems have z: "classes (?bs1 ! sj) ! c = 0"
      by (simp add: classes_zero_score_same)
    have "only_zeroed c ?bs1 (nms_inner c t si rest ?bs1)"
      by (rule nms_inner_only_zeroed)
    from only_zeroed_stays_zero [OF this _ _ z] Cons.prems oz
    have "classes (nms_inner c t si rest ?bs1 ! sj) ! c = 0"
      using only_zeroed_length_classes [OF oz, of sj] by simp
    then show ?thesis by simp
  next
    case False
    with Cons.prems have in_rest: "sj \<in> set rest" by simp
    have "classes (nms_inner c t si rest ?bs1 ! sj) ! c = 0"
    proof (rule Cons.IH [OF in_rest])
      show "sj < length ?bs1" using Cons.prems by simp
      show "si < length ?bs1" using Cons.prems by simp
      show "c < length (classes (?bs1 ! sj))"
        using only_zeroed_length_classes [OF oz, of sj] Cons.prems by simp
      show "t \<le> bbox_iou (?bs1 ! si) (?bs1 ! sj)"
        using only_zeroed_iou [OF oz, of si sj] Cons.prems by simp
    qed
    then show ?thesis by simp
  qed
qed

lemma nms_sweep_only_zeroed:
  "only_zeroed c bs (nms_sweep c t s bs)"
proof (induction s arbitrary: bs)
  case Nil
  show ?case by (simp add: only_zeroed_refl)
next
  case (Cons si rest)
  show ?case
    using only_zeroed_trans [OF nms_inner_only_zeroed Cons.IH] Cons.IH
    by simp
qed

lemma nms_sweep_untouched:
  "k \<notin> set s \<Longrightarrow> nms_sweep c t s bs ! k = bs ! k"
  by (induction s arbitrary: bs) (auto simp: nms_inner_untouched)

lemma nms_sweep_separates:
  assumes "distinct s" "\<forall>j \<in> set s. j < length bs" "\<forall>j \<in> set s. c < length (classes (bs ! j))"
    and "p < q" "q < length s"
    and "classes (nms_sweep c t s bs ! (s ! p)) ! c \<noteq> 0"
    and "classes (nms_sweep c t s bs ! (s ! q)) ! c \<noteq> 0"
  shows "bbox_iou (bs ! (s ! p)) (bs ! (s ! q)) < t"
  using assms
proof (induction s arbitrary: bs p q)
  case Nil
  then show ?case by simp
next
  case (Cons si rest)
  let ?bs1 = "if classes (bs ! si) ! c \<noteq> 0 then nms_inner c t si rest bs else bs"
  have oz: "only_zeroed c bs ?bs1"
    by (simp add: only_zeroed_refl nms_inner_only_zeroed)
  have res: "nms_sweep c t (si # rest) bs = nms_sweep c t rest ?bs1" by simp
  have oz2: "only_zeroed c ?bs1 (nms_sweep c t rest ?bs1)"
    by (rule nms_sweep_only_zeroed)
  have len1: "length ?bs1 = length bs" using oz by (simp add: only_zeroed_def)
  from Cons.prems obtain q' where q': "q = Suc q'" by (cases q) auto
  with Cons.prems have q'len: "q' < length rest" by simp
  then have sq_in: "rest ! q' \<in> set rest" by simp
  have sq_lt: "rest ! q' < length bs" using Cons.prems(2) sq_in by simp
  have si_lt: "si < length bs" using Cons.prems(2) by simp
  have sq_cls: "c < length (classes (bs ! (rest ! q')))" using Cons.prems(3) sq_in by simp
  show ?case
  proof (cases p)
    case 0
    have si_notin: "si \<notin> set rest" using Cons.prems(1) by simp
    have "nms_sweep c t rest ?bs1 ! si = ?bs1 ! si"
      by (rule nms_sweep_untouched [OF si_notin])
    also have "?bs1 ! si = bs ! si"
      using nms_inner_untouched [OF si_notin] by simp
    finally have keep: "nms_sweep c t rest ?bs1 ! si = bs ! si" .
    with Cons.prems(6) 0 have nz: "classes (bs ! si) ! c \<noteq> 0" by simp
    then have bs1: "?bs1 = nms_inner c t si rest bs" by simp
    show ?thesis
    proof (rule ccontr)
      assume "\<not> bbox_iou (bs ! ((si # rest) ! p)) (bs ! ((si # rest) ! q)) < t"
      then have ge: "t \<le> bbox_iou (bs ! si) (bs ! (rest ! q'))" using 0 q' by simp
      have z: "classes (?bs1 ! (rest ! q')) ! c = 0"
        unfolding bs1 by (rule nms_inner_zeroes [OF sq_in sq_lt si_lt sq_cls ge])
      have "classes (nms_sweep c t rest ?bs1 ! (rest ! q')) ! c = 0"
      proof (rule only_zeroed_stays_zero [OF oz2 _ _ z])
        show "rest ! q' < length ?bs1" using sq_lt len1 by simp
        show "c < length (classes (?bs1 ! (rest ! q')))"
          using only_zeroed_length_classes [OF oz sq_lt] sq_cls by simp
      qed
      with Cons.prems(7) q' show False by simp
    qed
  next
    case (Suc p')
    have "bbox_iou (?bs1 ! (rest ! p')) (?bs1 ! (rest ! q')) < t"
    proof (rule Cons.IH)
      show "distinct rest" using Cons.prems(1) by simp
      show "\<forall>j\<in>set rest. j < length ?bs1" using Cons.prems(2) len1 by simp
      show "\<forall>j\<in>set rest. c < length (classes (?bs1 ! j))"
      proof
        fix j assume j: "j \<in> set rest"
        then have "j < length bs" using Cons.prems(2) by simp
        from only_zeroed_length_classes [OF oz this] Cons.prems(3) j
        show "c < length (classes (?bs1 ! j))" by simp
      qed
      show "p' < q'" using Cons.prems(4) Suc q' by simp
      show "q' < length rest" by (rule q'len)
      show "classes (nms_sweep c t rest ?bs1 ! (rest ! p')) ! c \<noteq> 0"
        using Cons.prems(6) Suc by simp
      show "classes (nms_sweep c t rest ?bs1 ! (rest ! q')) ! c \<noteq> 0"
        using Cons.prems(7) q' by simp
    qed
    moreover have "rest ! p' < length bs"
      using Cons.prems(2,4) Suc q' q'len by simp
    ultimately show ?thesis
      using only_zeroed_iou [OF oz _ sq_lt, of "rest ! p'"] Suc q' by simp
  qed
qed

lemma argsort_set [simp]: "set (argsort ks) = {0..<length ks}"
  by (simp add: argsort_def)

lemma argsort_distinct [simp]: "distinct (argsort ks)"
  by (simp add: argsort_def)

lemma argsort_length [simp]: "length (argsort ks) = length ks"
  by (simp add: argsort_def)

lemma nms_sweep_separated:
  assumes "distinct s" "set s = {0..<length bs}" "\<forall>b \<in> set bs. c < length (classes b)"
  shows "separated c t (nms_sweep c t s bs)"
proof -
  let ?out = "nms_sweep c t s bs"
  have oz: "only_zeroed c bs ?out" by (rule nms_sweep_only_zeroed)
  have len: "length ?out = length bs" using oz by (simp add: only_zeroed_def)
  have h2: "\<forall>j \<in> set s. j < length bs" using assms(2) by simp
  have h3: "\<forall>j \<in> set s. c < length (classes (bs ! j))"
    using assms(2,3) by simp
  show ?thesis
    unfolding separated_def
  proof (intro allI impI)
    fix a b
    assume a: "a < length ?out" and b: "b < length ?out"
      and ab: "a \<noteq> b \<and> classes (?out ! a) ! c \<noteq> 0 \<and> classes (?out ! b) ! c \<noteq> 0"
    from a len assms(2) have "a \<in> set s" by simp
    then obtain p where p: "p < length s" "s ! p = a" unfolding in_set_conv_nth by blast
    from b len assms(2) have "b \<in> set s" by simp
    then obtain q where q: "q < length s" "s ! q = b" unfolding in_set_conv_nth by blast
    from ab p q have "p \<noteq> q" by auto
    then consider "p < q" | "q < p" by linarith
    then have "bbox_iou (bs ! a) (bs ! b) < t \<or> bbox_iou (bs ! b) (bs ! a) < t"
    proof cases
      case 1
      have "bbox_iou (bs ! (s ! p)) (bs ! (s ! q)) < t"
        by (rule nms_sweep_separates [OF assms(1) h2 h3 1 q(1)])
           (use ab p q in simp_all)
      then show ?thesis using p q by simp
    next
      case 2
      have "bbox_iou (bs ! (s ! q)) (bs ! (s ! p)) < t"
        by (rule nms_sweep_separates [OF assms(1) h2 h3 2 p(1)])
           (use ab p q in simp_all)
      then show ?thesis using p q by simp
    qed
    then show "bbox_iou (?out ! a) (?out ! b) < t \<or> bbox_iou (?out ! b) (?out ! a) < t"
      using only_zeroed_iou [OF oz, of a b] only_zeroed_iou [OF oz, of b a] a b len by simp
  qed
qed

lemma nms_class_separated:
  assumes "\<forall>b \<in> set bs. c < length (classes b)"
  shows "\<exists>out. nms_class t c bs = Inr out \<and> only_zeroed c bs out \<and> separated c t out"
proof -
  let ?s = "argsort (map (\<lambda>b. - (classes b ! c)) bs)"
  have eq: "nms_class t c bs = Inr (nms_sweep c t ?s bs)"
    using assms by (auto simp: nms_class_def)
  have "separated c t (nms_sweep c t ?s bs)"
    by (rule nms_sweep_separated [OF _ _ assms]) simp_all
  with eq nms_sweep_only_zeroed [of c bs t ?s] show ?thesis by blast
qed

lemma same_geometry_refl: "same_geometry bs bs"
  by (simp add: same_geometry_def)

lemma only_zeroed_same_geometry:
  "only_zeroed c bs bs' \<Longrightarrow> same_geometry bs bs'"
  unfolding only_zeroed_def same_geometry_def
  by (auto simp: zero_score_def geometry_def)

lemma same_geometry_trans:
  "same_geometry bs bs1 \<Longrightarrow> same_geometry bs1 bs2 \<Longrightarrow> same_geometry bs bs2"
  unfolding same_geometry_def
  by simp

lemma separated_other_class:
  assumes "only_zeroed c bs bs'" "c' \<noteq> c" "separated c' t bs"
  shows "separated c' t bs'"
proof -
  have len: "length bs' = length bs" using assms(1) by (simp add: only_zeroed_def)
  show ?thesis
    unfolding separated_def
  proof (intro allI impI)
    fix a b
    assume a: "a < length bs'" and b: "b < length bs'"
      and ab: "a \<noteq> b \<and> classes (bs' ! a) ! c' \<noteq> 0 \<and> classes (bs' ! b) ! c' \<noteq> 0"
    have "classes (bs ! a) ! c' \<noteq> 0" "classes (bs ! b) ! c' \<noteq> 0"
      using ab only_zeroed_other_class [OF assms(1) _ assms(2)] a b len by simp_all
    with assms(3) ab a b len
    have "bbox_iou (bs ! a) (bs ! b) < t \<or> bbox_iou (bs ! b) (bs ! a) < t"
      by (simp add: separated_def)
    then show "bbox_iou (bs' ! a) (bs' ! b) < t \<or> bbox_iou (bs' ! b) (bs' ! a) < t"
      using only_zeroed_iou [OF assms(1), of a b] only_zeroed_iou [OF assms(1), of b a] a b len
      by simp
  qed
qed

lemma nms_classes_fold:
  assumes "\<forall>b \<in> set bs. length (classes b) = n" "m \<le> n"
  shows "\<exists>out. fold (\<lambda>c r. then_do r (nms_class t c)) [0..<m] (Inr bs) = Inr out
           \<and> same_geometry bs out \<and> (\<forall>c < m. separated c t out)"
  using assms(2)
proof (induction m)
  case 0
  show ?case by (simp add: same_geometry_refl)
next
  case (Suc m)
  then obtain mid where mid: "fold (\<lambda>c r. then_do r (nms_class t c)) [0..<m] (Inr bs) = Inr mid"
    and geo: "same_geometry bs mid" and sep: "\<forall>c < m. separated c t mid"
    by auto
  have "\<forall>b \<in> set mid. m < length (classes b)"
  proof
    fix b assume "b \<in> set mid"
    then obtain k where k: "k < length mid" "mid ! k = b" unfolding in_set_conv_nth by blast
    with geo have "length (classes b) = length (classes (bs ! k))" "k < length bs"
      by (auto simp: same_geometry_def)
    with assms(1) Suc.prems show "m < length (classes b)" by simp
  qed
  from nms_class_separated [OF this]
  obtain out where out: "nms_class t m mid = Inr out" "only_zeroed m mid out" "separated m t out"
    by blast
  have "\<forall>c < Suc m. separated c t out"
  proof (intro allI impI)
    fix c assume c: "c < Suc m"
    show "separated c t out"
    proof (cases "c = m")
      case True
      with out(3) show ?thesis by simp
    next
      case False
      with c sep have "separated c t mid" by simp
      from separated_other_class [OF out(2) False this] show ?thesis .
    qed
  qed
  moreover have "same_geometry bs out"
    by (rule same_geometry_trans [OF geo only_zeroed_same_geometry [OF out(2)]])
  moreover have "fold (\<lambda>c r. then_do r (nms_class t c)) [0..<Suc m] (Inr bs) = Inr out"
    using mid out(1) by (simp add: then_do_def)
  ultimately show ?case by blast
qed

lemma argsort_two_desc: "argsort [- (9/10), - (4/5)] = [0, 1]"
  by (simp add: argsort_def)

lemma argsort_two_asc: "argsort [- (4/5), - (9/10)] = [1, 0]"
  by (simp add: argsort_def)

lemma two_box_nms:
  assumes "classes b1 = [9/10]" "classes b2 = [8/10]" "bbox_iou b1 b2 = 9/10"
  shows "do_nms [b1, b2] (45/100) = Inr [b1, zero_score 0 b2]"
    and "do_nms [b2, b1] (45/100) = Inr [zero_score 0 b2, b1]"
proof -
  have iou: "(9/20 :: real) \<le> bbox_iou b1 b2" using assms(3) by simp
  show "do_nms [b1, b2] (45/100) = Inr [b1, zero_score 0 b2]"
    using assms(1,2) iou
    by (simp add: do_nms_def then_do_def nms_class_def argsort_two_desc)
  show "do_nms [b2, b1] (45/100) = Inr [zero_score 0 b2, b1]"
    using assms(1,2) iou
    by (simp add: do_nms_def then_do_def nms_class_def argsort_two_asc)
qed



section \<open>Properties of the region filter\<close>

lemma roi_outside_zero_score [simp]: "roi_outside roi (zero_score c b) = roi_outside roi b"
  by (simp add: roi_outside_def zero_score_def)

lemma roi_classes_inside:
  "\<not> roi_outside roi b \<Longrightarrow> roi_classes roi cs b = Inr b' \<Longrightarrow> b' = b"
  by (induction cs arbitrary: b) (auto split: if_splits)

lemma roi_classes_outside:
  "roi_outside roi b \<Longrightarrow> roi_classes roi cs b = Inr b' \<Longrightarrow>
     roi_outside roi b' \<and> length (classes b') = length (classes b)
     \<and> (\<forall>c. classes b ! c = 0 \<longrightarrow> classes b' ! c = 0)
     \<and> (\<forall>c \<in> set cs. classes b' ! c = 0)"
proof (induction cs arbitrary: b)
  case Nil
  then show ?case by simp
next
  case (Cons c cs)
  let ?b1 = "if classes b ! c \<noteq> 0 \<and> roi_outside roi b then zero_score c b else b"
  from Cons.prems have c: "c < length (classes b)" and r: "roi_classes roi cs ?b1 = Inr b'"
    by (auto split: if_splits)
  have out1: "roi_outside roi ?b1" using Cons.prems(1) by simp
  have z1: "classes ?b1 ! c = 0" using c Cons.prems(1) by (simp add: classes_zero_score_same)
  have keep1: "\<forall>d. classes b ! d = 0 \<longrightarrow> classes ?b1 ! d = 0"
    using c by (auto simp: zero_score_def nth_list_update)
  have len1: "length (classes ?b1) = length (classes b)" by simp
  from Cons.IH [OF out1 r] z1 keep1 len1 show ?case by auto
qed

lemma roi_classes_all_zero:
  "\<forall>c \<in> set cs. c < length (classes b) \<and> classes b ! c = 0 \<Longrightarrow> roi_classes roi cs b = Inr b"
  by (induction cs) auto

lemma roi_classes_in_range:
  "roi_classes roi cs b = Inr b' \<Longrightarrow> \<forall>c \<in> set cs. c < length (classes b)"
proof (induction cs arbitrary: b)
  case Nil
  then show ?case by simp
next
  case (Cons c cs)
  let ?b1 = "if classes b ! c \<noteq> 0 \<and> roi_outside roi b then zero_score c b else b"
  from Cons.prems have c: "c < length (classes b)" and r: "roi_classes roi cs ?b1 = Inr b'"
    by (auto split: if_splits)
  from Cons.IH [OF r] have "\<forall>d \<in> set cs. d < length (classes b)"
    by (auto split: if_splits)
  with c show ?case by simp
qed

lemma roi_classes_length:
  "roi_classes roi cs b = Inr b' \<Longrightarrow> length (classes b') = length (classes b)"
proof (induction cs arbitrary: b)
  case Nil
  then show ?case by simp
next
  case (Cons c cs)
  let ?b1 = "if classes b ! c \<noteq> 0 \<and> roi_outside roi b then zero_score c b else b"
  from Cons.prems have r: "roi_classes roi cs ?b1 = Inr b'"
    by (auto split: if_splits)
  from Cons.IH [OF r] show ?case by (auto split: if_splits)
qed

lemma roi_classes_idem:
  assumes "roi_classes roi cs b = Inr b'"
  shows "roi_classes roi cs b' = Inr b'"
proof (cases "roi_outside roi b")
  case False
  from roi_classes_inside [OF False assms] assms show ?thesis by simp
next
  case True
  from roi_classes_outside [OF True assms] roi_classes_in_range [OF assms]
  have "\<forall>c \<in> set cs. c < length (classes b') \<and> classes b' ! c = 0" by simp
  then show ?thesis by (rule roi_classes_all_zero)
qed

lemma roi_boxes_idem:
  "roi_boxes roi n bs = Inr bs' \<Longrightarrow> roi_boxes roi n bs' = Inr bs'"
proof (induction bs arbitrary: bs')
  case Nil
  then show ?case by simp
next
  case (Cons b bs)
  from Cons.prems obtain b' rest where
    b': "roi_classes roi [0..<n] b = Inr b'" and rest: "roi_boxes roi n bs = Inr rest"
    and eq: "bs' = b' # rest"
    by (auto simp: then_do_def split: sum.splits)
  from roi_classes_idem [OF b'] Cons.IH [OF rest] eq show ?case
    by (simp add: then_do_def)
qed

lemma roi_boxes_hd:
  "roi_boxes roi n bs = Inr bs' \<Longrightarrow> bs \<noteq> [] \<Longrightarrow>
     bs' \<noteq> [] \<and> length (classes (hd bs')) = length (classes (hd bs))"
  by (cases bs) (auto simp: then_do_def roi_classes_length split: sum.splits)

lemma RoI_idem:
  assumes r: "RoI boxes region = Inr out"
  shows "RoI out region = Inr out"
proof (cases region)
  case None
  with r show ?thesis by (simp add: RoI_def)
next
  case (Some roi)
  show ?thesis
  proof (cases "roi \<noteq> [] \<and> length roi = 4")
    case False
    then have off: "\<And>bs. (roi \<noteq> [] \<and> length roi = 4 \<and> bs \<noteq> []) = False" by blast
    show ?thesis using r unfolding RoI_def Some option.case off if_False by simp
  next
    case True
    then have on: "\<And>bs. (roi \<noteq> [] \<and> length roi = 4 \<and> bs \<noteq> []) = (bs \<noteq> [])" by blast
    show ?thesis
    proof (cases "boxes = []")
      case True
      then show ?thesis using r unfolding RoI_def Some option.case on by simp
    next
      case False
      with r have rb: "roi_boxes roi (length (classes (hd boxes))) boxes = Inr out"
        unfolding RoI_def Some option.case on by simp
      from roi_boxes_hd [OF rb False]
      have h: "out \<noteq> []" "length (classes (hd out)) = length (classes (hd boxes))" by simp_all
      from roi_boxes_idem [OF rb] h show ?thesis
        unfolding RoI_def Some option.case on by simp
    qed
  qed
qed

lemma roi_classes_total:
  "length (classes b) = n \<Longrightarrow> \<exists>b'. roi_classes roi [0..<n] b = Inr b'"
proof -
  have "\<forall>c \<in> set cs. c < length (classes b) \<Longrightarrow> \<exists>b'. roi_classes roi cs b = Inr b'" for cs
    by (induction cs arbitrary: b) auto
  from this [of "[0..<n]"] show "length (classes b) = n \<Longrightarrow> ?thesis" by simp
qed

lemma roi_boxes_total:
  "\<forall>b \<in> set bs. length (classes b) = n \<Longrightarrow> \<exists>bs'. roi_boxes roi n bs = Inr bs'"
proof (induction bs)
  case Nil
  show ?case by simp
next
  case (Cons b bs)
  then obtain bs' where "roi_boxes roi n bs = Inr bs'" by auto
  moreover from Cons.prems roi_classes_total [of b n roi]
  obtain b' where "roi_classes roi [0..<n] b = Inr b'" by auto
  ultimately show ?case by (simp add: then_do_def)
qed

lemma RoI_total:
  assumes "\<forall>b \<in> set boxes. length (classes b) = length (classes (hd boxes))"
  shows "\<exists>out. RoI boxes region = Inr out"
proof (cases region)
  case None
  then show ?thesis by (simp add: RoI_def)
next
  case (Some roi)
  from roi_boxes_total [OF assms]
  obtain bs' where "roi_boxes roi (length (classes (hd boxes))) boxes = Inr bs'" by blast
  then show ?thesis unfolding RoI_def Some option.case by metis
qed

section \<open>The claims on boxes\<close>

lemma example_boxes_rect:
  "is_rect square_box" "is_rect far_box" "is_rect slice_box" "is_rect point_box"
  by (simp_all add: is_rect_def square_box_def far_box_def slice_box_def point_box_def new_BoundBox_def)

lemma iou_square_slice: "bbox_iou square_box slice_box = 9/10"
  by (simp add: bbox_iou_def py_truediv_def union_area_def intersect_area_def
      interval_overlap_def square_box_def slice_box_def new_BoundBox_def)

text \<open>
  C6, as amended. \<open>bbox_iou\<close> is 0 whenever the computed intersection is 0, in particular
  for two rectangles that lie apart; it is 1 for two boxes with the same corners of positive
  width and height; and when the union area is 0 the division raises, the exception is
  caught and the result is 0.
\<close>

theorem bbox_iou_values:
  "(intersect_area box1 box2 = 0 \<longrightarrow> bbox_iou box1 box2 = 0)
   \<and> (is_rect box1 \<and> is_rect box2 \<and>
        (xmax box1 < xmin box2 \<or> xmax box2 < xmin box1 \<or> ymax box1 < ymin box2 \<or> ymax box2 < ymin box1)
        \<longrightarrow> bbox_iou box1 box2 = 0)
   \<and> (xmin box1 < xmax box1 \<and> ymin box1 < ymax box1 \<and> geometry box2 = geometry box1
        \<longrightarrow> bbox_iou box1 box2 = 1)
   \<and> (union_area box1 box2 = 0 \<longrightarrow>
        py_truediv (intersect_area box1 box2) (union_area box1 box2) = Inl ZeroDivisionError
        \<and> bbox_iou box1 box2 = 0)"
proof (intro conjI impI)
  assume "intersect_area box1 box2 = 0"
  then show "bbox_iou box1 box2 = 0" by (simp add: bbox_iou_def py_truediv_def)
next
  assume a: "is_rect box1 \<and> is_rect box2 \<and>
        (xmax box1 < xmin box2 \<or> xmax box2 < xmin box1 \<or> ymax box1 < ymin box2 \<or> ymax box2 < ymin box1)"
  then have "intersect_area box1 box2 = 0"
    unfolding intersect_area_def is_rect_def
    by (auto simp: interval_overlap_apart)
  then show "bbox_iou box1 box2 = 0" by (simp add: bbox_iou_def py_truediv_def)
next
  assume a: "xmin box1 < xmax box1 \<and> ymin box1 < ymax box1 \<and> geometry box2 = geometry box1"
  then have i: "intersect_area box1 box2 = (xmax box1 - xmin box1) * (ymax box1 - ymin box1)"
    by (simp add: intersect_area_def interval_overlap_self geometry_def)
  from a have "0 < (xmax box1 - xmin box1) * (ymax box1 - ymin box1)" by simp
  with a i show "bbox_iou box1 box2 = 1"
    by (simp add: bbox_iou_def py_truediv_def union_area_def geometry_def)
next
  assume "union_area box1 box2 = 0"
  then show "py_truediv (intersect_area box1 box2) (union_area box1 box2) = Inl ZeroDivisionError"
    by (simp add: py_truediv_def)
next
  assume "union_area box1 box2 = 0"
  then show "bbox_iou box1 box2 = 0" by (simp add: bbox_iou_def py_truediv_def)
qed

theorem bbox_iou_values_witness:
  "is_rect square_box \<and> is_rect far_box \<and> xmax square_box < xmin far_box
   \<and> bbox_iou square_box far_box = 0
   \<and> xmin square_box < xmax square_box \<and> ymin square_box < ymax square_box
   \<and> bbox_iou square_box square_box = 1
   \<and> union_area point_box point_box = 0 \<and> intersect_area point_box point_box = 0
   \<and> bbox_iou point_box point_box = 0"
proof -
  have apart: "is_rect square_box \<and> is_rect far_box \<and> xmax square_box < xmin far_box"
    by (simp add: example_boxes_rect) (simp add: square_box_def far_box_def new_BoundBox_def)
  have proper: "xmin square_box < xmax square_box \<and> ymin square_box < ymax square_box"
    by (simp add: square_box_def new_BoundBox_def)
  have flat: "union_area point_box point_box = 0 \<and> intersect_area point_box point_box = 0"
    by (simp add: union_area_def intersect_area_def interval_overlap_def point_box_def new_BoundBox_def)
  from bbox_iou_values [of square_box far_box] apart
  have "bbox_iou square_box far_box = 0" by blast
  moreover from bbox_iou_values [of square_box square_box] proper
  have "bbox_iou square_box square_box = 1" by blast
  moreover from bbox_iou_values [of point_box point_box] flat
  have "bbox_iou point_box point_box = 0" by blast
  ultimately show ?thesis using apart proper flat by blast
qed

theorem bbox_iou_identical_point_boxes:
  "union_area point_box point_box = 0 \<and> bbox_iou point_box point_box = 0
   \<and> bbox_iou point_box point_box \<noteq> 1"
  by (simp add: bbox_iou_def py_truediv_def union_area_def intersect_area_def
      interval_overlap_def point_box_def new_BoundBox_def)

text \<open>
  C2. For a non-empty list of boxes that all carry as many class scores as the first,
  \<open>do_nms\<close> returns, changes no corner, and leaves no two boxes with a nonzero score for the
  same class whose overlap, as the sweep computes it, reaches the threshold; for
  rectangles the overlap does not depend on the order of the two boxes. The sweep of one
  class separates the boxes in whatever order the indices are visited, so the order that
  \<open>np.argsort\<close> gives to equal scores does not matter. Two boxes of one class with scores
  0.9 and 0.8 and overlap 0.9 under threshold 0.45: only the first keeps its score, in
  either order of the list.
\<close>

theorem do_nms_separates_survivors:
  "(boxes \<noteq> [] \<and> same_class_count boxes \<longrightarrow>
      (\<exists>out. do_nms boxes nms_thresh = Inr out \<and> same_geometry boxes out
         \<and> (\<forall>c < length (classes (hd boxes)). \<forall>i < length out. \<forall>j < length out.
              i \<noteq> j \<and> classes (out ! i) ! c \<noteq> 0 \<and> classes (out ! j) ! c \<noteq> 0 \<longrightarrow>
                (bbox_iou (out ! i) (out ! j) < nms_thresh \<or> bbox_iou (out ! j) (out ! i) < nms_thresh)
                \<and> (is_rect (out ! i) \<and> is_rect (out ! j) \<longrightarrow> bbox_iou (out ! i) (out ! j) < nms_thresh))))
   \<and> (distinct visit \<and> set visit = {0..<length boxes} \<and> has_class c boxes \<longrightarrow>
        separated c nms_thresh (nms_sweep c nms_thresh visit boxes))
   \<and> (classes b1 = [9/10] \<and> classes b2 = [8/10] \<and> bbox_iou b1 b2 = 9/10 \<longrightarrow>
        do_nms [b1, b2] (45/100) = Inr [b1, zero_score 0 b2]
        \<and> do_nms [b2, b1] (45/100) = Inr [zero_score 0 b2, b1])"
proof (intro conjI impI)
  assume "distinct visit \<and> set visit = {0..<length boxes} \<and> has_class c boxes"
  then show "separated c nms_thresh (nms_sweep c nms_thresh visit boxes)"
    using nms_sweep_separated [of visit boxes c nms_thresh] unfolding has_class_def by blast
next
  assume a: "boxes \<noteq> [] \<and> same_class_count boxes"
  let ?n = "length (classes (hd boxes))"
  from a have "\<forall>b \<in> set boxes. length (classes b) = ?n"
    unfolding same_class_count_def by blast
  from nms_classes_fold [OF this, of ?n nms_thresh]
  obtain out where out: "fold (\<lambda>c r. then_do r (nms_class nms_thresh c)) [0..<?n] (Inr boxes) = Inr out"
    and geo: "same_geometry boxes out" and sep: "\<forall>c < ?n. separated c nms_thresh out"
    by auto
  from a have "boxes \<noteq> []" by blast
  with out have run: "do_nms boxes nms_thresh = Inr out" by (simp add: do_nms_def)
  have "\<forall>c < ?n. \<forall>i < length out. \<forall>j < length out.
          i \<noteq> j \<and> classes (out ! i) ! c \<noteq> 0 \<and> classes (out ! j) ! c \<noteq> 0 \<longrightarrow>
            (bbox_iou (out ! i) (out ! j) < nms_thresh \<or> bbox_iou (out ! j) (out ! i) < nms_thresh)
            \<and> (is_rect (out ! i) \<and> is_rect (out ! j) \<longrightarrow> bbox_iou (out ! i) (out ! j) < nms_thresh)"
  proof (intro allI impI)
    fix c i j
    assume c: "c < ?n" and i: "i < length out" and j: "j < length out"
      and ij: "i \<noteq> j \<and> classes (out ! i) ! c \<noteq> 0 \<and> classes (out ! j) ! c \<noteq> 0"
    from sep c have "separated c nms_thresh out" by simp
    with i j ij
    have either: "bbox_iou (out ! i) (out ! j) < nms_thresh \<or> bbox_iou (out ! j) (out ! i) < nms_thresh"
      unfolding separated_def by blast
    moreover have "is_rect (out ! i) \<and> is_rect (out ! j) \<longrightarrow> bbox_iou (out ! i) (out ! j) < nms_thresh"
      using either bbox_iou_sym [of "out ! i" "out ! j"] by auto
    ultimately show "(bbox_iou (out ! i) (out ! j) < nms_thresh \<or> bbox_iou (out ! j) (out ! i) < nms_thresh)
            \<and> (is_rect (out ! i) \<and> is_rect (out ! j) \<longrightarrow> bbox_iou (out ! i) (out ! j) < nms_thresh)"
      by blast
  qed
  with run geo show "\<exists>out. do_nms boxes nms_thresh = Inr out \<and> same_geometry boxes out
         \<and> (\<forall>c < length (classes (hd boxes)). \<forall>i < length out. \<forall>j < length out.
              i \<noteq> j \<and> classes (out ! i) ! c \<noteq> 0 \<and> classes (out ! j) ! c \<noteq> 0 \<longrightarrow>
                (bbox_iou (out ! i) (out ! j) < nms_thresh \<or> bbox_iou (out ! j) (out ! i) < nms_thresh)
                \<and> (is_rect (out ! i) \<and> is_rect (out ! j) \<longrightarrow> bbox_iou (out ! i) (out ! j) < nms_thresh))"
    by blast
next
  assume "classes b1 = [9/10] \<and> classes b2 = [8/10] \<and> bbox_iou b1 b2 = 9/10"
  then show "do_nms [b1, b2] (45/100) = Inr [b1, zero_score 0 b2]"
    using two_box_nms(1) [of b1 b2] by blast
next
  assume "classes b1 = [9/10] \<and> classes b2 = [8/10] \<and> bbox_iou b1 b2 = 9/10"
  then show "do_nms [b2, b1] (45/100) = Inr [zero_score 0 b2, b1]"
    using two_box_nms(2) [of b1 b2] by blast
qed

theorem do_nms_separates_survivors_witness:
  "[slice_box, square_box] \<noteq> [] \<and> same_class_count [slice_box, square_box]
   \<and> classes square_box = [9/10] \<and> classes slice_box = [8/10]
   \<and> bbox_iou square_box slice_box = 9/10
   \<and> do_nms [slice_box, square_box] (45/100) = Inr [zero_score 0 slice_box, square_box]
   \<and> classes (zero_score 0 slice_box) ! 0 = 0 \<and> classes square_box ! 0 \<noteq> 0
   \<and> (\<exists>out. do_nms [slice_box, square_box] (45/100) = Inr out
         \<and> same_geometry [slice_box, square_box] out)
   \<and> distinct [0, 1::nat] \<and> set [0, 1::nat] = {0..<length [slice_box, square_box]}
   \<and> has_class 0 [slice_box, square_box]
   \<and> separated 0 (45/100) (nms_sweep 0 (45/100) [0, 1] [slice_box, square_box])"
proof -
  have shape: "[slice_box, square_box] \<noteq> [] \<and> same_class_count [slice_box, square_box]"
    by (simp add: same_class_count_def square_box_def slice_box_def new_BoundBox_def)
  have scores: "classes square_box = [9/10] \<and> classes slice_box = [8/10] \<and> bbox_iou square_box slice_box = 9/10"
    using iou_square_slice by (simp add: square_box_def slice_box_def new_BoundBox_def)
  have visit: "distinct [0, 1::nat] \<and> set [0, 1::nat] = {0..<length [slice_box, square_box]}
      \<and> has_class 0 [slice_box, square_box]"
    by (auto simp: has_class_def square_box_def slice_box_def new_BoundBox_def)
  note inst = do_nms_separates_survivors
    [of "[slice_box, square_box]" "45/100" "[0, 1]" 0 square_box slice_box]
  from inst scores
  have run: "do_nms [slice_box, square_box] (45/100) = Inr [zero_score 0 slice_box, square_box]"
    by blast
  from inst shape
  have "\<exists>out. do_nms [slice_box, square_box] (45/100) = Inr out
         \<and> same_geometry [slice_box, square_box] out"
    by blast
  moreover from inst visit
  have "separated 0 (45/100) (nms_sweep 0 (45/100) [0, 1] [slice_box, square_box])"
    by blast
  moreover have "classes (zero_score 0 slice_box) ! 0 = 0 \<and> classes square_box ! 0 \<noteq> 0"
    by (simp add: zero_score_def square_box_def slice_box_def new_BoundBox_def)
  ultimately show ?thesis using shape scores run visit by blast
qed

text \<open>
  C8. Applying \<open>RoI\<close> to its own result changes nothing, for every list of boxes and every
  region: an exception of the first application aside, the second application returns the
  boxes of the first; and \<open>RoI\<close> returns when all boxes carry as many class scores as the
  first.
\<close>

theorem RoI_idempotent:
  "then_do (RoI boxes region_of_interest) (\<lambda>out. RoI out region_of_interest)
     = RoI boxes region_of_interest
   \<and> (same_class_count boxes \<longrightarrow>
        (\<exists>out. RoI boxes region_of_interest = Inr out \<and> RoI out region_of_interest = Inr out))"
proof (intro conjI impI)
  show "then_do (RoI boxes region_of_interest) (\<lambda>out. RoI out region_of_interest) = RoI boxes region_of_interest"
    by (cases "RoI boxes region_of_interest") (simp_all add: then_do_def RoI_idem)
next
  assume "same_class_count boxes"
  then have "\<forall>b \<in> set boxes. length (classes b) = length (classes (hd boxes))"
    unfolding same_class_count_def .
  from RoI_total [OF this] obtain out where "RoI boxes region_of_interest = Inr out" by blast
  with RoI_idem [OF this] show "\<exists>out. RoI boxes region_of_interest = Inr out \<and> RoI out region_of_interest = Inr out"
    by blast
qed

lemma RoI_example:
  "RoI [square_box, far_box] (Some [0, 10, 0, 10]) = Inr [square_box, zero_score 0 far_box]"
  by (simp add: RoI_def then_do_def roi_outside_def py_int_def square_box_def far_box_def
      new_BoundBox_def zero_score_def)

theorem RoI_idempotent_witness:
  "same_class_count [square_box, far_box]
   \<and> RoI [square_box, far_box] (Some [0, 10, 0, 10]) = Inr [square_box, zero_score 0 far_box]
   \<and> RoI [square_box, zero_score 0 far_box] (Some [0, 10, 0, 10]) = Inr [square_box, zero_score 0 far_box]"
proof -
  have same: "same_class_count [square_box, far_box]"
    by (simp add: same_class_count_def square_box_def far_box_def new_BoundBox_def)
  from RoI_idempotent [of "[square_box, far_box]" "Some [0, 10, 0, 10]"] same
  obtain out where "RoI [square_box, far_box] (Some [0, 10, 0, 10]) = Inr out"
    and "RoI out (Some [0, 10, 0, 10]) = Inr out" by blast
  with RoI_example same show ?thesis by simp
qed

section \<open>Properties of the decoder\<close>

lemma collect_Inr_cases:
  "collect f (x # xs) = Inr ys \<Longrightarrow>
     \<exists>a b. f x = Inr a \<and> collect f xs = Inr b \<and> ys = a @ b"
  by (auto simp: then_do_def split: sum.splits)

lemma collect_length_bound:
  assumes "collect f xs = Inr ys" "\<And>x zs. x \<in> set xs \<Longrightarrow> f x = Inr zs \<Longrightarrow> length zs \<le> m"
  shows "length ys \<le> length xs * m"
  using assms
proof (induction xs arbitrary: ys)
  case Nil
  then show ?case by simp
next
  case (Cons x xs)
  from collect_Inr_cases [OF Cons.prems(1)]
  obtain a b where ab: "f x = Inr a" "collect f xs = Inr b" "ys = a @ b" by blast
  have "length a \<le> m" using Cons.prems(2) [of x a] ab(1) by simp
  moreover have "length b \<le> length xs * m"
  proof (rule Cons.IH [OF ab(2)])
    fix x' zs assume "x' \<in> set xs" "f x' = Inr zs"
    then show "length zs \<le> m" using Cons.prems(2) [of x' zs] by simp
  qed
  ultimately show ?case using ab(3) by simp
qed

lemma collect_member:
  assumes "collect f xs = Inr ys" "y \<in> set ys"
  shows "\<exists>x \<in> set xs. \<exists>zs. f x = Inr zs \<and> y \<in> set zs"
  using assms
proof (induction xs arbitrary: ys)
  case Nil
  then show ?case by simp
next
  case (Cons x xs)
  from collect_Inr_cases [OF Cons.prems(1)]
  obtain a b where ab: "f x = Inr a" "collect f xs = Inr b" "ys = a @ b" by blast
  from Cons.prems(2) ab(3) consider "y \<in> set a" | "y \<in> set b" by auto
  then show ?case
  proof cases
    case 1
    with ab(1) show ?thesis by auto
  next
    case 2
    from Cons.IH [OF ab(2) 2] show ?thesis by auto
  qed
qed

lemma collect_total:
  assumes "\<And>x. x \<in> set xs \<Longrightarrow> \<exists>zs. f x = Inr zs"
  shows "\<exists>ys. collect f xs = Inr ys"
  using assms
proof (induction xs)
  case Nil
  show ?case by simp
next
  case (Cons x xs)
  from Cons.prems [of x] obtain a where "f x = Inr a" by auto
  moreover from Cons.IH Cons.prems obtain b where "collect f xs = Inr b" by auto
  ultimately show ?case by (simp add: then_do_def)
qed

lemma collect_singletons:
  assumes "\<And>x. x \<in> set xs \<Longrightarrow> f x = Inr [g x]"
  shows "collect f xs = Inr (map g xs)"
  using assms by (induction xs) (simp_all add: then_do_def)

lemma map_upto_length [simp]: "length (map_upto n f v) = length v"
  by (simp add: map_upto_def)

lemma map_from_length [simp]: "length (map_from n f v) = length v"
  by (simp add: map_from_def)

lemma map_upto_nth:
  "i < length v \<Longrightarrow> map_upto n f v ! i = (if i < n then f (v ! i) else v ! i)"
  by (auto simp: map_upto_def nth_append min_def)

lemma map_from_nth:
  "i < length v \<Longrightarrow> map_from n f v ! i = (if i < n then v ! i else f (v ! i))"
  by (auto simp: map_from_def nth_append min_def)

lemma map_from_drop:
  "n \<le> length v \<Longrightarrow> drop n (map_from n f v) = map f (drop n v)"
  by (simp add: map_from_def)

lemma activate_length [simp]: "length (activate t v) = length v"
  by (simp add: activate_def Let_def)

lemma activate_nth:
  assumes "5 \<le> length v"
  shows "activate t v ! 0 = sigmoid (v ! 0)" "activate t v ! 1 = sigmoid (v ! 1)"
    "activate t v ! 2 = v ! 2" "activate t v ! 3 = v ! 3" "activate t v ! 4 = sigmoid (v ! 4)"
proof -
  from assms have lens: "v \<noteq> []" "Suc 0 < length v" "2 < length v" "3 < length v" "4 < length v"
    by auto
  show "activate t v ! 0 = sigmoid (v ! 0)" "activate t v ! 1 = sigmoid (v ! 1)"
    "activate t v ! 2 = v ! 2" "activate t v ! 3 = v ! 3" "activate t v ! 4 = sigmoid (v ! 4)"
    using lens by (simp_all add: activate_def Let_def map_from_nth map_upto_nth)
qed

lemma activate_classes:
  assumes "5 \<le> length v" "s \<in> set (drop 5 (activate t v))"
  shows "s = 0 \<or> t < s"
proof -
  define s3 where "s3 = (let s1 = map_upto 2 sigmoid v; s2 = map_from 4 sigmoid s1
      in map_from 5 (\<lambda>p. (s2 ! 4) * p) s2)"
  have len: "length s3 = length v" by (simp add: s3_def Let_def)
  have act: "activate t v = map_from 5 (\<lambda>p. p * (if t < p then 1 else 0)) s3"
    by (simp add: activate_def s3_def Let_def)
  have "drop 5 (activate t v) = map (\<lambda>p. p * (if t < p then 1 else 0)) (drop 5 s3)"
    unfolding act using assms(1) len by (simp add: map_from_drop)
  with assms(2) show ?thesis by auto
qed

lemma decode_anchor_cases:
  assumes "decode_anchor anchors t net_h net_w grid_h grid_w row col b v = Inr zs"
  shows "zs = [] \<or> (\<exists>box. zs = [box] \<and> objness box = v ! 4 \<and> t < v ! 4
                        \<and> classes box = drop 5 v \<and> net_w \<noteq> 0 \<and> net_h \<noteq> 0
                        \<and> 2 * b + 1 < length anchors
                        \<and> xmax box - xmin box = anchors ! (2 * b) * exp (v ! 2) / real_of_int net_w
                        \<and> ymax box - ymin box = anchors ! (2 * b + 1) * exp (v ! 3) / real_of_int net_h)"
  using assms
  by (auto simp: decode_anchor_def Let_def new_BoundBox_def split: if_splits)

lemma decode_netout_unfold:
  assumes "decode_netout netout anchors t nh nw = Inr boxes"
  shows "netout \<noteq> []" "hd netout \<noteq> []" "nb_box dvd length (hd (hd netout))"
    "5 \<le> length (hd (hd netout)) div nb_box"
    "collect (\<lambda>row. collect (\<lambda>col. collect (\<lambda>b.
        decode_anchor anchors t nh nw (length netout) (length (hd netout)) row col b
          (map (map (\<lambda>cell. map (activate t)
             (reshape_cell (length (hd (hd netout)) div nb_box) cell))) netout ! row ! col ! b))
        [0..<nb_box]) [0..<length (hd netout)]) [0..<length netout] = Inr boxes"
  using assms
  by (auto simp: decode_netout_def Let_def split: if_splits)

lemma decode_anchor_short:
  "decode_anchor anchors t nh nw gh gw row col b v = Inr zs \<Longrightarrow> length zs \<le> 1"
  using decode_anchor_cases [of anchors t nh nw gh gw row col b v zs] by auto

lemma decode_netout_count:
  assumes "decode_netout netout anchors t nh nw = Inr boxes"
  shows "length boxes \<le> length netout * length (hd netout) * nb_box"
proof -
  let ?cells = "map (map (\<lambda>cell. map (activate t)
             (reshape_cell (length (hd (hd netout)) div nb_box) cell))) netout"
  let ?anchor = "\<lambda>row col b. decode_anchor anchors t nh nw (length netout) (length (hd netout)) row col b
          (?cells ! row ! col ! b)"
  let ?col = "\<lambda>row col. collect (?anchor row col) [0..<nb_box]"
  let ?row = "\<lambda>row. collect (?col row) [0..<length (hd netout)]"
  have inner: "length zs \<le> nb_box * 1" if "?col row col = Inr zs" for row col zs
    using collect_length_bound [OF that, of 1] decode_anchor_short by fastforce
  have mid: "length zs \<le> length (hd netout) * (nb_box * 1)" if "?row row = Inr zs" for row zs
    using collect_length_bound [OF that, of "nb_box * 1"] inner by fastforce
  have "length boxes \<le> length netout * (length (hd netout) * (nb_box * 1))"
    using collect_length_bound [OF decode_netout_unfold(5) [OF assms], of "length (hd netout) * (nb_box * 1)"] mid
    by fastforce
  then show ?thesis by (simp add: mult.assoc)
qed

lemma decode_netout_member:
  assumes "decode_netout netout anchors t nh nw = Inr boxes" "box \<in> set boxes"
  shows "\<exists>row < length netout. \<exists>col < length (hd netout). \<exists>b < nb_box.
           decode_anchor anchors t nh nw (length netout) (length (hd netout)) row col b
             (map (map (\<lambda>cell. map (activate t)
                (reshape_cell (length (hd (hd netout)) div nb_box) cell))) netout ! row ! col ! b)
           = Inr [box]"
proof -
  let ?cells = "map (map (\<lambda>cell. map (activate t)
             (reshape_cell (length (hd (hd netout)) div nb_box) cell))) netout"
  let ?anchor = "\<lambda>row col b. decode_anchor anchors t nh nw (length netout) (length (hd netout)) row col b
          (?cells ! row ! col ! b)"
  let ?col = "\<lambda>row col. collect (?anchor row col) [0..<nb_box]"
  let ?row = "\<lambda>row. collect (?col row) [0..<length (hd netout)]"
  from collect_member [OF decode_netout_unfold(5) [OF assms(1)] assms(2)]
  obtain row zs where row: "row < length netout" "?row row = Inr zs" "box \<in> set zs" by auto
  from collect_member [OF row(2,3)]
  obtain col ys where col: "col < length (hd netout)" "?col row col = Inr ys" "box \<in> set ys" by auto
  from collect_member [OF col(2,3)]
  obtain b xs where b: "b < nb_box" "?anchor row col b = Inr xs" "box \<in> set xs" by auto
  from decode_anchor_cases [OF b(2)] b(3) have "xs = [box]" by auto
  with row(1) col(1) b(1,2) show ?thesis by blast
qed

lemma reshape_cell_nth:
  assumes "length cell = nb_box * k" "b < nb_box"
  shows "length (reshape_cell k cell ! b) = k"
    and "i < k \<Longrightarrow> reshape_cell k cell ! b ! i = cell ! (b * k + i)"
proof -
  have r: "reshape_cell k cell ! b = take k (drop (b * k) cell)"
    using assms(2) by (simp add: reshape_cell_def)
  from assms(2) have "Suc b \<le> nb_box" by simp
  then have "Suc b * k \<le> nb_box * k" by (rule mult_le_mono1)
  then have fit: "b * k + k \<le> length cell" using assms(1) by simp
  show "length (reshape_cell k cell ! b) = k" unfolding r using fit by simp
  show "i < k \<Longrightarrow> reshape_cell k cell ! b ! i = cell ! (b * k + i)"
    unfolding r using fit by simp
qed

lemma tensor_cell:
  assumes "is_tensor netout" "row < length netout" "col < length (hd netout)"
  shows "col < length (netout ! row)" "length (netout ! row ! col) = length (hd (hd netout))"
proof -
  from assms(2) have r: "netout ! row \<in> set netout" by simp
  with assms(1) have len: "length (netout ! row) = length (hd netout)"
    and cells: "\<forall>cell \<in> set (netout ! row). length cell = length (hd (hd netout))"
    unfolding is_tensor_def by blast+
  show "col < length (netout ! row)" using len assms(3) by simp
  then have "netout ! row ! col \<in> set (netout ! row)" by simp
  with cells show "length (netout ! row ! col) = length (hd (hd netout))" by blast
qed

lemma decode_netout_box:
  assumes "decode_netout netout anchors t nh nw = Inr boxes" "box \<in> set boxes"
  shows "t < objness box" "is_tensor netout \<Longrightarrow> \<forall>s \<in> set (classes box). s = 0 \<or> t < s"
    "is_tensor netout \<Longrightarrow>
       \<exists>row < length netout. \<exists>col < length (hd netout). \<exists>b < nb_box.
         objness box = sigmoid (netout ! row ! col ! (b * (length (hd (hd netout)) div nb_box) + 4))"
    "anchors_ok anchors \<Longrightarrow> 0 < nh \<Longrightarrow> 0 < nw \<Longrightarrow> is_rect box"
proof -
  let ?k = "length (hd (hd netout)) div nb_box"
  let ?cells = "map (map (\<lambda>cell. map (activate t) (reshape_cell ?k cell))) netout"
  from decode_netout_member [OF assms]
  obtain row col b where rc: "row < length netout" "col < length (hd netout)" "b < nb_box"
    and dec: "decode_anchor anchors t nh nw (length netout) (length (hd netout)) row col b
                (?cells ! row ! col ! b) = Inr [box]"
    by blast
  let ?v = "?cells ! row ! col ! b"
  from decode_anchor_cases [OF dec]
  have box: "objness box = ?v ! 4" "t < ?v ! 4" "classes box = drop 5 ?v"
    "nw \<noteq> 0" "nh \<noteq> 0" "2 * b + 1 < length anchors"
    "xmax box - xmin box = anchors ! (2 * b) * exp (?v ! 2) / real_of_int nw"
    "ymax box - ymin box = anchors ! (2 * b + 1) * exp (?v ! 3) / real_of_int nh"
    by auto
  show "t < objness box" using box(1,2) by simp
  show "anchors_ok anchors \<Longrightarrow> 0 < nh \<Longrightarrow> 0 < nw \<Longrightarrow> is_rect box"
  proof -
    assume ok: "anchors_ok anchors" and pos: "0 < nh" "0 < nw"
    from box(6) have "anchors ! (2 * b) \<in> set anchors" "anchors ! (2 * b + 1) \<in> set anchors"
      by simp_all
    with ok have "0 \<le> anchors ! (2 * b)" "0 \<le> anchors ! (2 * b + 1)"
      unfolding anchors_ok_def by blast+
    with pos have "0 \<le> anchors ! (2 * b) * exp (?v ! 2) / real_of_int nw"
      "0 \<le> anchors ! (2 * b + 1) * exp (?v ! 3) / real_of_int nh"
      by simp_all
    with box(7,8) show "is_rect box" unfolding is_rect_def by linarith
  qed
  have k5: "5 \<le> ?k" by (rule decode_netout_unfold(4) [OF assms(1)])
  have dvd: "nb_box dvd length (hd (hd netout))" by (rule decode_netout_unfold(3) [OF assms(1)])
  show "is_tensor netout \<Longrightarrow> \<forall>s \<in> set (classes box). s = 0 \<or> t < s"
  proof -
    assume tens: "is_tensor netout"
    let ?cell = "netout ! row ! col"
    from tensor_cell [OF tens rc(1,2)]
    have col: "col < length (netout ! row)" and clen: "length ?cell = length (hd (hd netout))" by simp_all
    from dvd clen have clen': "length ?cell = nb_box * ?k" by simp
    have v: "?v = activate t (reshape_cell ?k ?cell ! b)"
      using rc col by (simp add: reshape_cell_def)
    from reshape_cell_nth(1) [OF clen' rc(3)] k5
    have "5 \<le> length (reshape_cell ?k ?cell ! b)" by simp
    from activate_classes [OF this, of _ t] box(3) v show ?thesis by simp
  qed
  show "is_tensor netout \<Longrightarrow>
       \<exists>row < length netout. \<exists>col < length (hd netout). \<exists>b < nb_box.
         objness box = sigmoid (netout ! row ! col ! (b * ?k + 4))"
  proof -
    assume tens: "is_tensor netout"
    let ?cell = "netout ! row ! col"
    from tensor_cell [OF tens rc(1,2)]
    have col: "col < length (netout ! row)" and clen: "length ?cell = length (hd (hd netout))" by simp_all
    from dvd clen have clen': "length ?cell = nb_box * ?k" by simp
    have v: "?v = activate t (reshape_cell ?k ?cell ! b)"
      using rc col by (simp add: reshape_cell_def)
    from reshape_cell_nth [OF clen' rc(3)] k5
    have "length (reshape_cell ?k ?cell ! b) = ?k" "reshape_cell ?k ?cell ! b ! 4 = ?cell ! (b * ?k + 4)"
      by simp_all
    with k5 v have "?v ! 4 = sigmoid (?cell ! (b * ?k + 4))"
      by (simp add: activate_nth)
    with box(1) rc show ?thesis by auto
  qed
qed


lemma decode_anchor_total:
  assumes "2 * nb_box \<le> length anchors" "nh \<noteq> 0" "nw \<noteq> 0" "b < nb_box"
  shows "\<exists>zs. decode_anchor anchors t nh nw gh gw row col b v = Inr zs"
  using assms by (simp add: decode_anchor_def Let_def)

lemma decode_netout_total:
  assumes "decodable netout anchors nh nw"
  shows "\<exists>boxes. decode_netout netout anchors t nh nw = Inr boxes"
proof -
  from assms have a: "2 * nb_box \<le> length anchors" "nh \<noteq> 0" "nw \<noteq> 0"
    and shape: "netout \<noteq> []" "hd netout \<noteq> []" "nb_box dvd length (hd (hd netout))"
      "5 \<le> length (hd (hd netout)) div nb_box"
    unfolding decodable_def by blast+
  let ?cells = "map (map (\<lambda>cell. map (activate t)
             (reshape_cell (length (hd (hd netout)) div nb_box) cell))) netout"
  let ?anchor = "\<lambda>row col b. decode_anchor anchors t nh nw (length netout) (length (hd netout)) row col b
          (?cells ! row ! col ! b)"
  let ?col = "\<lambda>row col. collect (?anchor row col) [0..<nb_box]"
  let ?row = "\<lambda>row. collect (?col row) [0..<length (hd netout)]"
  have inner: "\<exists>zs. ?col row col = Inr zs" for row col
    by (rule collect_total) (use decode_anchor_total [OF a] in simp)
  have mid: "\<exists>zs. ?row row = Inr zs" for row
    by (rule collect_total) (rule inner)
  have "\<exists>zs. collect ?row [0..<length netout] = Inr zs"
    by (rule collect_total) (rule mid)
  then show ?thesis using shape by (simp add: decode_netout_def Let_def)
qed


lemma first_failure_append:
  "first_failure (ps @ qs) = (case first_failure ps of None \<Rightarrow> first_failure qs | Some e \<Rightarrow> Some e)"
  by (induction ps rule: first_failure.induct) simp_all


lemma correct_box_result:
  "nh \<noteq> 0 \<Longrightarrow> nw \<noteq> 0 \<Longrightarrow>
     correct_box ft ih iw nh nw b =
       (case first_failure (corner_products ft ih iw b) of
          None \<Rightarrow> Inr [scaled ft ih iw b]
        | Some e \<Rightarrow> Inl e)"
  by (cases "ft (xmin b) iw"; cases "ft (xmax b) iw"; cases "ft (ymin b) ih"; cases "ft (ymax b) ih")
    (simp_all add: correct_box_def corner_products_def scaled_def value_of_def int_of_float_def
      py_truediv_def then_do_def Let_def)

lemma correct_yolo_boxes_result:
  assumes "nh \<noteq> 0" "nw \<noteq> 0"
  shows "correct_yolo_boxes ft boxes ih iw nh nw =
       (case first_failure (concat (map (corner_products ft ih iw) boxes)) of
          None \<Rightarrow> Inr (map (scaled ft ih iw) boxes)
        | Some e \<Rightarrow> Inl e)"
proof (induction boxes)
  case Nil
  show ?case by (simp add: correct_yolo_boxes_def)
next
  case (Cons b boxes)
  from Cons.IH assms show ?case
    by (simp add: correct_yolo_boxes_def correct_box_result first_failure_append then_do_def
        split: option.splits)
qed









section \<open>The claims on decoding and correction\<close>

lemma sigmoid_zero: "sigmoid 0 = 1/2"
  by (simp add: sigmoid_def)

lemma activate_zero: "activate (1/5) (replicate 6 0) = [1/2, 1/2, 0, 0, 1/2, 1/4]"
  by (simp add: activate_def map_upto_def map_from_def sigmoid_zero Let_def numeral_eq_Suc)

lemma reshape_zero: "reshape_cell 6 (replicate 18 0) = [replicate 6 0, replicate 6 0, replicate 6 0]"
  by (simp add: reshape_cell_def nb_box_def numeral_eq_Suc upt_rec)

lemma decode_zero_cell:
  "decode_netout zero_cell example_anchors (1/5) 416 416 = Inr zero_cell_boxes"
  apply (simp add: decode_netout_def zero_cell_def Let_def)
  apply (simp add: nb_box_def reshape_zero [unfolded nb_box_def] activate_zero)
  apply (simp add: upt_rec then_do_def decode_anchor_def example_anchors_def Let_def zero_cell_boxes_def)
  done

lemma zero_cell_shape:
  "is_tensor zero_cell" "decodable zero_cell example_anchors 416 416" "anchors_ok example_anchors"
  by (simp_all add: is_tensor_def decodable_def anchors_ok_def zero_cell_def example_anchors_def nb_box_def)








text \<open>
  C5. On a tensor, whenever \<open>decode_netout\<close> returns, it returns at most
  \<open>grid_h * grid_w * nb_box\<close> boxes (\<open>nb_box = 3\<close> is the number of anchors of the code),
  the objectness of every box is the sigmoid of the objectness channel of some cell and
  anchor and exceeds \<open>obj_thresh\<close>, and every class score of a box is 0 or exceeds
  \<open>obj_thresh\<close>. It does return on every decodable input.
\<close>

theorem decode_netout_gate:
  "(is_tensor netout \<and> decode_netout netout anchors obj_thresh net_h net_w = Inr boxes \<longrightarrow>
      length boxes \<le> length netout * length (hd netout) * nb_box
      \<and> (\<forall>box \<in> set boxes.
            obj_thresh < objness box
            \<and> (\<exists>row < length netout. \<exists>col < length (hd netout). \<exists>b < nb_box.
                 objness box
                   = sigmoid (netout ! row ! col ! (b * (length (hd (hd netout)) div nb_box) + 4)))
            \<and> (\<forall>s \<in> set (classes box). s = 0 \<or> obj_thresh < s)))
   \<and> (decodable netout anchors net_h net_w \<longrightarrow>
        (\<exists>out. decode_netout netout anchors obj_thresh net_h net_w = Inr out))"
proof (intro conjI impI ballI)
  assume a: "is_tensor netout \<and> decode_netout netout anchors obj_thresh net_h net_w = Inr boxes"
  then show "length boxes \<le> length netout * length (hd netout) * nb_box"
    using decode_netout_count by blast
next
  fix box
  assume a: "is_tensor netout \<and> decode_netout netout anchors obj_thresh net_h net_w = Inr boxes"
    and b: "box \<in> set boxes"
  from a have d: "decode_netout netout anchors obj_thresh net_h net_w = Inr boxes" by blast
  show "obj_thresh < objness box" by (rule decode_netout_box(1) [OF d b])
next
  fix box
  assume a: "is_tensor netout \<and> decode_netout netout anchors obj_thresh net_h net_w = Inr boxes"
    and b: "box \<in> set boxes"
  from a have d: "decode_netout netout anchors obj_thresh net_h net_w = Inr boxes"
    and t: "is_tensor netout" by blast+
  show "\<exists>row < length netout. \<exists>col < length (hd netout). \<exists>b < nb_box.
          objness box = sigmoid (netout ! row ! col ! (b * (length (hd (hd netout)) div nb_box) + 4))"
    by (rule decode_netout_box(3) [OF d b t])
next
  fix box s
  assume a: "is_tensor netout \<and> decode_netout netout anchors obj_thresh net_h net_w = Inr boxes"
    and b: "box \<in> set boxes" and s: "s \<in> set (classes box)"
  from a have d: "decode_netout netout anchors obj_thresh net_h net_w = Inr boxes"
    and t: "is_tensor netout" by blast+
  from decode_netout_box(2) [OF d b t] s show "s = 0 \<or> obj_thresh < s" by blast
next
  assume "decodable netout anchors net_h net_w"
  then show "\<exists>out. decode_netout netout anchors obj_thresh net_h net_w = Inr out"
    by (rule decode_netout_total)
qed

theorem decode_netout_gate_witness:
  "is_tensor zero_cell \<and> decodable zero_cell example_anchors 416 416
   \<and> decode_netout zero_cell example_anchors (1/5) 416 416 = Inr zero_cell_boxes
   \<and> length zero_cell_boxes = 3
   \<and> length zero_cell_boxes \<le> length zero_cell * length (hd zero_cell) * nb_box
   \<and> 1/5 < objness (zero_cell_boxes ! 0) \<and> classes (zero_cell_boxes ! 0) = [1/4]"
proof -
  have run: "is_tensor zero_cell \<and> decode_netout zero_cell example_anchors (1/5) 416 416 = Inr zero_cell_boxes"
    using zero_cell_shape(1) decode_zero_cell by simp
  from decode_netout_gate [of zero_cell example_anchors "1/5" 416 416 zero_cell_boxes] run
  have "length zero_cell_boxes \<le> length zero_cell * length (hd zero_cell) * nb_box" by blast
  moreover have "length zero_cell_boxes = 3 \<and> 1/5 < objness (zero_cell_boxes ! 0)
      \<and> classes (zero_cell_boxes ! 0) = [1/4]"
    by (simp add: zero_cell_boxes_def new_BoundBox_def)
  ultimately show ?thesis using run zero_cell_shape(2) by simp
qed



section \<open>Properties of the detection in one image\<close>

lemma to_object_plain: "to_object entry = Inr [plain_object entry]"
  by (cases entry) (simp add: to_object_def plain_object_def np_max_def then_do_def)

lemma collect_to_object: "collect to_object selected = Inr (map plain_object selected)"
  by (rule collect_singletons) (rule to_object_plain)

lemma example_decode:
  "decode_scales example_detector (1/5) (example_predict example_image) = Inr example_decoded"
  apply (simp add: decode_scales_def example_predict_def example_detector_def then_do_def)
  apply (simp add: decode_netout_def zero_cell_def Let_def)
  apply (simp add: nb_box_def reshape_zero [unfolded nb_box_def] activate_zero)
  apply (simp add: upt_rec then_do_def decode_anchor_def Let_def example_decoded_def)
  done

lemma example_correct:
  "correct_yolo_boxes exact_times example_decoded 100 200 416 416 = Inr example_pixels"
  by (simp add: correct_yolo_boxes_result corner_products_def scaled_def value_of_def exact_times_def
      rounded_times_def new_BoundBox_def py_int_def example_pixels_def example_decoded_def)

lemma example_iou:
  "bbox_iou (example_pixels ! 0) (example_pixels ! 1) = 15 / 40000"
  "bbox_iou (example_pixels ! 0) (example_pixels ! 2) = 49 / 40000"
  "bbox_iou (example_pixels ! 1) (example_pixels ! 2) = 15 / 49"
  by (simp_all add: example_pixels_def new_BoundBox_def bbox_iou_def py_truediv_def union_area_def
      intersect_area_def interval_overlap_def)

lemma example_argsort: "argsort [- (1/4), - (1/4), - (1/4)] = [0, 1, 2]"
  by (simp add: argsort_def upt_rec)

lemma example_nms: "do_nms example_pixels (2/5) = Inr example_pixels"
proof -
  have keys: "map (\<lambda>b. - (classes b ! 0)) example_pixels = [- (1/4), - (1/4), - (1/4)]"
    by (simp add: example_pixels_def new_BoundBox_def)
  have cls: "classes (hd example_pixels) = [1/4]" "example_pixels \<noteq> []"
    "\<not> (\<exists>b \<in> set example_pixels. length (classes b) \<le> 0)"
    "classes (example_pixels ! 0) ! 0 \<noteq> 0" "classes (example_pixels ! 1) ! 0 \<noteq> 0"
    "classes (example_pixels ! 2) ! 0 \<noteq> 0"
    by (simp_all add: example_pixels_def new_BoundBox_def)
  have sweep: "nms_sweep 0 (2/5) [0, 1, 2] example_pixels = example_pixels"
    using cls(4-6) example_iou by simp
  show ?thesis
    using cls(1-3) sweep by (simp add: do_nms_def then_do_def nms_class_def keys example_argsort)
qed

lemma example_get_boxes:
  "get_boxes example_pixels [''person''] (1/5) = Inr example_selected"
  by (simp add: get_boxes_def get_box_labels_def then_do_def example_pixels_def new_BoundBox_def
      example_selected_def)

lemma example_select:
  "select_boxes exact_times example_detector example_image (example_predict example_image) (1/5) (2/5) None =
     Inr example_selected"
proof -
  have fields: "height example_image = 100" "width example_image = 200"
    "input_size example_detector = 416" "model_labels example_detector = [''person'']"
    by (simp_all add: example_image_def example_detector_def)
  show ?thesis
    unfolding select_boxes_def example_decode fields
    by (simp add: then_do_def example_correct RoI_def example_nms example_get_boxes)
qed

lemma example_plain: "map plain_object example_selected = example_objects"
  by (simp add: plain_object_def example_pixels_def example_objects_def new_BoundBox_def
      example_selected_def)


text \<open>
  C9. The dictionaries that the detection builds carry the corners of the selected boxes
  unchanged, \<open>[xmin, ymin, xmax, ymax]\<close>: \<open>np.max(x, 0)\<close> returns \<open>x\<close>. A negative corner
  stays negative.
\<close>

theorem box_points_are_corners:
  "detect_objects float_times det img yolo_results object_threshold nms_threshold region_of_interest
     = (case select_boxes float_times det img yolo_results object_threshold nms_threshold region_of_interest of
          Inl e \<Rightarrow> Inl e
        | Inr selected \<Rightarrow> Inr (map plain_object selected))
   \<and> to_object (object_box, object_label, object_score)
       = Inr [\<lparr> name = object_label, percentage_probability = object_score,
                box_points = [xmin object_box, ymin object_box, xmax object_box, ymax object_box] \<rparr>]"
  by (simp add: detect_objects_def then_do_def collect_to_object to_object_plain plain_object_def
      split: sum.splits)

theorem box_points_are_corners_witness:
  "detect_objects exact_times example_detector example_image (example_predict example_image) (1/5) (2/5) None
     = Inr example_objects
   \<and> box_points (example_objects ! 0) = [-100, 0, 300, 100]
   \<and> detectObjectsFromImage exact_times example_detector example_predict (Some example_image) [] ''array''
        ''array'' False 20 (2/5) None = Inr (ReturnsImageObjects example_objects)"
proof -
  from box_points_are_corners [of exact_times example_detector example_image "example_predict example_image"
      "1/5" "2/5" None]
  have run: "detect_objects exact_times example_detector example_image (example_predict example_image) (1/5) (2/5) None
     = Inr example_objects"
    by (simp add: example_select example_plain)
  moreover have "box_points (example_objects ! 0) = [-100, 0, 300, 100]"
    by (simp add: example_objects_def)
  moreover have "detectObjectsFromImage exact_times example_detector example_predict (Some example_image) []
      ''array'' ''array'' False 20 (2/5) None = Inr (ReturnsImageObjects example_objects)"
  proof -
    have fields: "model_loaded example_detector" "model_type example_detector = ''yolov3''"
      by (simp_all add: example_detector_def)
    show ?thesis
      unfolding detectObjectsFromImage_def using fields run by (simp add: then_do_def)
  qed
  ultimately show ?thesis by simp
qed



section \<open>Properties of the video scan\<close>

lemma call_fields [simp]:
  "n_frame (call st c) = n_frame st"
  "output_frames_dict (call st c) = output_frames_dict st"
  "output_frames_count_dict (call st c) = output_frames_count_dict st"
  "detection_timeout_count (call st c) = detection_timeout_count st"
  "calls (call st c) = calls st @ [(n_frame st, c)]"
  by (simp_all add: call_def)

lemma record_frame_fields [simp]:
  "n_frame (record_frame st objs) = n_frame st"
  "output_frames_dict (record_frame st objs) = (output_frames_dict st)(n_frame st \<mapsto> objs)"
  "output_frames_count_dict (record_frame st objs)
     = (output_frames_count_dict st)(n_frame st \<mapsto> count_objects objs)"
  "calls (record_frame st objs) = calls st"
  by (simp_all add: record_frame_def)

lemma check_timeout_fields:
  assumes "check_timeout opts fps st = (out, st1)"
  shows "n_frame st1 = n_frame st" "output_frames_dict st1 = output_frames_dict st"
    "output_frames_count_dict st1 = output_frames_count_dict st" "calls st1 = calls st"
  using assms
  by (auto simp: check_timeout_def py_mod_def Let_def split: option.splits if_splits)


lemma fire_window_fields:
  assumes "fire_window supplied function opts window st = (out, st')"
  shows "n_frame st' = n_frame st" "output_frames_dict st' = output_frames_dict st"
    "output_frames_count_dict st' = output_frames_count_dict st"
    "out \<noteq> Break"
  using assms
  by (auto simp: fire_window_def split: sum.splits if_splits prod.splits)

lemma fire_window_calls:
  assumes "fire_window supplied function opts window st = (Continue, st')"
  shows "(supplied \<and> n_frame st \<noteq> 1 \<and> window \<noteq> 0 \<and> n_frame st mod window = 0
            \<and> (\<exists>position object_array counting_array counting.
                  window_summary st (n_frame st) window
                    = Inr (position, object_array, counting_array, counting)
                  \<and> calls st' = calls st @ [(n_frame st,
                        function position object_array counting_array counting
                          (return_detected_frame opts))]))
         \<or> (\<not> (supplied \<and> n_frame st \<noteq> 1 \<and> window dvd n_frame st) \<and> calls st' = calls st)"
  using assms
  by (auto simp: fire_window_def window_due_def py_mod_def then_do_def
           split: sum.splits if_splits prod.splits)

lemma scan_frame_continueD:
  assumes "\<not> performance_mode opts" "scan_frame opts fps detect frame st = (Continue, st')"
  shows "\<exists>st1 due st4.
           check_timeout opts fps (st\<lparr> n_frame := n_frame st + 1 \<rparr>) = (Continue, st1)
           \<and> detection_due (n_frame st + 1) (frame_detection_interval opts) = Inr due
           \<and> fire_window (per_second_function opts) PerSecond opts fps
                (if per_frame_function opts \<and> due
                 then call (record_frame st1 (frame_objects due (detect frame)))
                        (PerFrame (n_frame st1) (frame_objects due (detect frame))
                           (count_objects (frame_objects due (detect frame)))
                           (return_detected_frame opts))
                 else record_frame st1 (frame_objects due (detect frame))) = (Continue, st4)
           \<and> fire_window (per_minute_function opts) PerMinute opts (fps * 60) st4 = (Continue, st')"
proof -
  let ?st = "st\<lparr> n_frame := n_frame st + 1 \<rparr>"
  obtain o1 st1 where t: "check_timeout opts fps ?st = (o1, st1)" by (cases "check_timeout opts fps ?st")
  from assms t have o1: "o1 = Continue"
    by (auto simp: scan_frame_def Let_def split: sum.splits if_splits)
  from assms t o1 obtain due where d: "detection_due (n_frame st + 1) (frame_detection_interval opts) = Inr due"
    by (auto simp: scan_frame_def Let_def split: sum.splits if_splits)
  let ?objs = "frame_objects due (detect frame)"
  let ?st3 = "if per_frame_function opts \<and> due
                 then call (record_frame st1 ?objs)
                        (PerFrame (n_frame st1) ?objs (count_objects ?objs) (return_detected_frame opts))
                 else record_frame st1 ?objs"
  obtain o2 st4 where s: "fire_window (per_second_function opts) PerSecond opts fps ?st3 = (o2, st4)"
    by (cases "fire_window (per_second_function opts) PerSecond opts fps ?st3")
  from assms t o1 d s have o2: "o2 = Continue"
    by (auto simp: scan_frame_def Let_def split: sum.splits if_splits)
  from assms t o1 d s o2
  have "fire_window (per_minute_function opts) PerMinute opts (fps * 60) st4 = (Continue, st')"
    by (auto simp: scan_frame_def Let_def split: sum.splits if_splits)
  with t o1 d s o2 show ?thesis by blast
qed

lemma per_second_frames_append [simp]:
  "per_second_frames (xs @ ys) = per_second_frames xs @ per_second_frames ys"
  by (simp add: per_second_frames_def)

lemma per_second_frames_single [simp]:
  "per_second_frames [(n, PerSecond p a c d f)] = [n]"
  "per_second_frames [(n, PerMinute p a c d f)] = []"
  "per_second_frames [(n, PerFrame p objs cnt f)] = []"
  "per_second_frames [(n, VideoComplete a c e)] = []"
  "per_second_frames [] = []"
  by (simp_all add: per_second_frames_def is_per_second_def)

lemma video_complete_calls_append [simp]:
  "video_complete_calls (xs @ ys) = video_complete_calls xs @ video_complete_calls ys"
  by (simp add: video_complete_calls_def)

lemma video_complete_calls_single [simp]:
  "video_complete_calls [(n, PerSecond p a c d f)] = []"
  "video_complete_calls [(n, PerMinute p a c d f)] = []"
  "video_complete_calls [(n, PerFrame p objs cnt f)] = []"
  "video_complete_calls [(n, VideoComplete a c e)] = [VideoComplete a c e]"
  "video_complete_calls [] = []"
  by (simp_all add: video_complete_calls_def is_video_complete_def)

lemma detection_due_value:
  "detection_due n interval = Inr due \<Longrightarrow> due = due_at interval n"
  by (auto simp: detection_due_def due_at_def py_mod_def then_do_def split: if_splits)

lemma scan_frame_continue:
  assumes "\<not> performance_mode opts" "scan_frame opts fps detect frame st = (Continue, st')"
  shows "n_frame st' = n_frame st + 1"
    and "output_frames_dict st' = (output_frames_dict st)
           (n_frame st + 1 \<mapsto> frame_objects (due_at (frame_detection_interval opts) (n_frame st + 1)) (detect frame))"
    and "output_frames_count_dict st' = (output_frames_count_dict st)
           (n_frame st + 1 \<mapsto> count_objects
              (frame_objects (due_at (frame_detection_interval opts) (n_frame st + 1)) (detect frame)))"
    and "per_second_frames (calls st') = per_second_frames (calls st) @
           (if per_second_function opts \<and> n_frame st + 1 \<noteq> 1 \<and> fps dvd n_frame st + 1
            then [n_frame st + 1] else [])"
    and "video_complete_calls (calls st') = video_complete_calls (calls st)"
proof -
  let ?st = "st\<lparr> n_frame := n_frame st + 1 \<rparr>"
  from scan_frame_continueD [OF assms]
  obtain st1 due st4 where
    t: "check_timeout opts fps ?st = (Continue, st1)"
    and d: "detection_due (n_frame st + 1) (frame_detection_interval opts) = Inr due"
    and s: "fire_window (per_second_function opts) PerSecond opts fps
                (if per_frame_function opts \<and> due
                 then call (record_frame st1 (frame_objects due (detect frame)))
                        (PerFrame (n_frame st1) (frame_objects due (detect frame))
                           (count_objects (frame_objects due (detect frame)))
                           (return_detected_frame opts))
                 else record_frame st1 (frame_objects due (detect frame))) = (Continue, st4)"
    and m: "fire_window (per_minute_function opts) PerMinute opts (fps * 60) st4 = (Continue, st')"
    by blast
  let ?objs = "frame_objects due (detect frame)"
  let ?st3 = "if per_frame_function opts \<and> due
                 then call (record_frame st1 ?objs)
                        (PerFrame (n_frame st1) ?objs (count_objects ?objs) (return_detected_frame opts))
                 else record_frame st1 ?objs"
  have due: "due = due_at (frame_detection_interval opts) (n_frame st + 1)"
    by (rule detection_due_value [OF d])
  from check_timeout_fields [OF t]
  have f1: "n_frame st1 = n_frame st + 1" "output_frames_dict st1 = output_frames_dict st"
    "output_frames_count_dict st1 = output_frames_count_dict st" "calls st1 = calls st"
    by simp_all
  have f3: "n_frame ?st3 = n_frame st + 1"
    "output_frames_dict ?st3 = (output_frames_dict st)(n_frame st + 1 \<mapsto> ?objs)"
    "output_frames_count_dict ?st3 = (output_frames_count_dict st)(n_frame st + 1 \<mapsto> count_objects ?objs)"
    "per_second_frames (calls ?st3) = per_second_frames (calls st)"
    "video_complete_calls (calls ?st3) = video_complete_calls (calls st)"
    using f1 by simp_all
  from fire_window_fields [OF s] f3
  have f4: "n_frame st4 = n_frame st + 1"
    "output_frames_dict st4 = (output_frames_dict st)(n_frame st + 1 \<mapsto> ?objs)"
    "output_frames_count_dict st4 = (output_frames_count_dict st)(n_frame st + 1 \<mapsto> count_objects ?objs)"
    by simp_all
  from fire_window_calls [OF s] f3(1,4,5)
  have c4: "per_second_frames (calls st4) = per_second_frames (calls st) @
           (if per_second_function opts \<and> n_frame st + 1 \<noteq> 1 \<and> fps dvd n_frame st + 1
            then [n_frame st + 1] else [])"
    "video_complete_calls (calls st4) = video_complete_calls (calls st)"
    by (auto simp: dvd_eq_mod_eq_0)
  from fire_window_fields [OF m] f4 due
  show "n_frame st' = n_frame st + 1"
    and "output_frames_dict st' = (output_frames_dict st)
           (n_frame st + 1 \<mapsto> frame_objects (due_at (frame_detection_interval opts) (n_frame st + 1)) (detect frame))"
    and "output_frames_count_dict st' = (output_frames_count_dict st)
           (n_frame st + 1 \<mapsto> count_objects
              (frame_objects (due_at (frame_detection_interval opts) (n_frame st + 1)) (detect frame)))"
    by simp_all
  from fire_window_calls [OF m] c4
  show "per_second_frames (calls st') = per_second_frames (calls st) @
           (if per_second_function opts \<and> n_frame st + 1 \<noteq> 1 \<and> fps dvd n_frame st + 1
            then [n_frame st + 1] else [])"
    and "video_complete_calls (calls st') = video_complete_calls (calls st)"
    by auto
qed

lemma scan_frame_break:
  assumes "scan_frame opts fps detect frame st = (Break, st')"
  shows "n_frame st' = n_frame st + 1" "output_frames_dict st' = output_frames_dict st"
    "calls st' = calls st"
proof -
  let ?st = "st\<lparr> n_frame := n_frame st + 1 \<rparr>"
  obtain o1 st1 where t: "check_timeout opts fps ?st = (o1, st1)" by (cases "check_timeout opts fps ?st")
  have "o1 = Break \<and> st' = st1"
  proof (rule ccontr)
    assume not: "\<not> (o1 = Break \<and> st' = st1)"
    have perf: "\<not> performance_mode opts"
      using assms by (auto simp: scan_frame_def Let_def split: sum.splits if_splits)
    have o1: "o1 = Continue"
      using assms t not perf by (auto simp: scan_frame_def Let_def split: sum.splits if_splits)
    from assms t o1 perf obtain due where d: "detection_due (n_frame st + 1) (frame_detection_interval opts) = Inr due"
      by (auto simp: scan_frame_def Let_def split: sum.splits if_splits)
    let ?objs = "frame_objects due (detect frame)"
    let ?st3 = "if per_frame_function opts \<and> due
                 then call (record_frame st1 ?objs)
                        (PerFrame (n_frame st1) ?objs (count_objects ?objs) (return_detected_frame opts))
                 else record_frame st1 ?objs"
    obtain o2 st4 where s: "fire_window (per_second_function opts) PerSecond opts fps ?st3 = (o2, st4)"
      by (cases "fire_window (per_second_function opts) PerSecond opts fps ?st3")
    from fire_window_fields(4) [OF s] have nb: "o2 \<noteq> Break" .
    from assms t o1 perf d s nb have o2: "o2 = Continue"
      by (auto simp: scan_frame_def Let_def split: sum.splits if_splits)
    from assms t o1 perf d s o2
    have "fire_window (per_minute_function opts) PerMinute opts (fps * 60) st4 = (Break, st')"
      by (auto simp: scan_frame_def Let_def split: sum.splits if_splits)
    from fire_window_fields(4) [OF this] show False by simp
  qed
  with t have "check_timeout opts fps ?st = (Break, st')" by simp
  from check_timeout_fields [OF this]
  show "n_frame st' = n_frame st + 1" "output_frames_dict st' = output_frames_dict st"
    "calls st' = calls st"
    by simp_all
qed

lemma scan_frames_step:
  "scan_frames opts fps detect (frame # rest) st = (exit, st') \<Longrightarrow>
     (\<exists>st1. scan_frame opts fps detect frame st = (Continue, st1)
            \<and> scan_frames opts fps detect rest st1 = (exit, st'))
     \<or> (scan_frame opts fps detect frame st = (Break, st') \<and> exit = TimedOut)
     \<or> (\<exists>e. scan_frame opts fps detect frame st = (Raise e, st') \<and> exit = Raised e)"
  by (cases "scan_frame opts fps detect frame st") (auto split: frame_outcome.splits)


lemma scan_frames_timed_out:
  assumes "\<not> performance_mode opts" "scan_frames opts fps detect frames st = (TimedOut, st')"
    "keys_below st"
  shows "output_frames_dict st' (n_frame st') = None \<and> n_frame st < n_frame st'
    \<and> video_complete_calls (calls st') = video_complete_calls (calls st)"
  using assms(2,3)
proof (induction frames arbitrary: st)
  case Nil
  then show ?case by simp
next
  case (Cons frame rest)
  from scan_frames_step [OF Cons.prems(1)]
  consider st1 where "scan_frame opts fps detect frame st = (Continue, st1)"
      "scan_frames opts fps detect rest st1 = (TimedOut, st')"
    | "scan_frame opts fps detect frame st = (Break, st')"
    by auto
  then show ?case
  proof cases
    case 1
    note f = scan_frame_continue [OF assms(1) 1(1)]
    have "keys_below st1"
      using Cons.prems(2) f(1,2) by (simp add: keys_below_def)
    from Cons.IH [OF 1(2) this] f(1,5) show ?thesis by simp
  next
    case 2
    from scan_frame_break [OF 2] Cons.prems(2) show ?thesis
      by (simp add: keys_below_def)
  qed
qed

lemma lookup_all_missing:
  "k \<in> set ks \<Longrightarrow> d k = None \<Longrightarrow> lookup_all d ks = Inl KeyError"
proof (induction ks)
  case Nil
  then show ?case by simp
next
  case (Cons a ks)
  show ?case
  proof (cases "d a")
    case None
    then show ?thesis by (simp add: lookup_all_def then_do_def)
  next
    case (Some v)
    with Cons.prems have "k \<in> set ks" by auto
    from Cons.IH [OF this Cons.prems(2)] Some show ?thesis
      by (simp add: lookup_all_def then_do_def)
  qed
qed





lemma video_summary_missing:
  assumes "1 \<le> n_frame st" "output_frames_dict st (n_frame st) = None"
  shows "video_summary st = Inl KeyError"
proof -
  have "n_frame st - 1 \<in> set [0..n_frame st - 1]" using assms(1) by simp
  then have "(\<lambda>idx. idx + 1) (n_frame st - 1) \<in> (\<lambda>idx. idx + 1) ` set [0..n_frame st - 1]"
    by (rule imageI)
  then have "n_frame st \<in> set (map (\<lambda>idx. idx + 1) [0..n_frame st - 1])"
    by simp
  from lookup_all_missing [of "n_frame st" _ "output_frames_dict st", OF this assms(2)] show ?thesis
    by (simp add: video_summary_def then_do_def Let_def)
qed







lemma initial_state_fields [simp]:
  "n_frame initial_state = 0" "calls initial_state = []"
  "output_frames_dict initial_state = Map.empty"
  "output_frames_count_dict initial_state = Map.empty"
  by (simp_all add: initial_state_def)

lemma initial_state_keys: "keys_below initial_state" "keys_filled initial_state"
  by (simp_all add: keys_below_def keys_filled_def)

lemma run_ended:
  "video_model_type = ''yolov3'' \<Longrightarrow>
     ended (detectObjectsFromVideo video_model_type opts path fps detect frames)
       = fst (scan_frames opts fps detect frames initial_state)"
  by (simp add: detectObjectsFromVideo_def Let_def split: loop_exit.splits sum.splits)

lemma run_not_raised:
  assumes "video_model_type = ''yolov3''"
    "scan_frames opts fps detect frames initial_state = (exit, st)" "exit = Exhausted \<or> exit = TimedOut"
  shows "detectObjectsFromVideo video_model_type opts path fps detect frames =
           (if video_complete_function opts
            then (case video_summary st of
                    Inl e \<Rightarrow> \<lparr> returned = Inl e, ended = exit, final = st \<rparr>
                  | Inr c \<Rightarrow> \<lparr> returned = Inr (if save_detected_video opts then Some (path @ ''.avi'') else None),
                               ended = exit, final = call st c \<rparr>)
            else \<lparr> returned = Inr (if save_detected_video opts then Some (path @ ''.avi'') else None),
                   ended = exit, final = st \<rparr>)"
  using assms
  by (auto simp: detectObjectsFromVideo_def Let_def split: sum.splits)

lemma run_timed_out:
  assumes "\<not> performance_mode opts" "video_complete_function opts"
    "ended (detectObjectsFromVideo video_model_type opts path fps detect frames) = TimedOut"
  shows "returned (detectObjectsFromVideo video_model_type opts path fps detect frames) = Inl KeyError"
    and "video_complete_calls (calls (final (detectObjectsFromVideo video_model_type opts path fps detect frames))) = []"
proof -
  have yolo: "video_model_type = ''yolov3''"
    using assms(3) by (auto simp: detectObjectsFromVideo_def split: if_splits)
  obtain exit st where sc: "scan_frames opts fps detect frames initial_state = (exit, st)"
    by (cases "scan_frames opts fps detect frames initial_state")
  from run_ended [OF yolo, of opts path fps detect frames] assms(3) sc
  have exit: "exit = TimedOut" by simp
  from scan_frames_timed_out [OF assms(1) sc [unfolded exit] initial_state_keys(1)]
  have gone: "output_frames_dict st (n_frame st) = None" and pos: "1 \<le> n_frame st"
    and none: "video_complete_calls (calls st) = []"
    by simp_all
  from video_summary_missing [OF pos gone] have ks: "video_summary st = Inl KeyError" .
  from run_not_raised [OF yolo sc, of path] exit assms(2) ks
  have "detectObjectsFromVideo video_model_type opts path fps detect frames
      = \<lparr> returned = Inl KeyError, ended = TimedOut, final = st \<rparr>"
    by simp
  with none
  show "returned (detectObjectsFromVideo video_model_type opts path fps detect frames) = Inl KeyError"
    and "video_complete_calls (calls (final (detectObjectsFromVideo video_model_type opts path fps detect frames))) = []"
    by simp_all
qed







lemma scan_options_fields:
  "\<not> performance_mode scan_options" "per_second_function scan_options"
  "video_complete_function scan_options" "frame_detection_interval scan_options = 1"
  "runs_through scan_options 2" "runs_through scan_options 30"
  "\<not> performance_mode timeout_options" "video_complete_function timeout_options"
  by (simp_all add: scan_options_def timeout_options_def runs_through_def)

section \<open>Properties of the counts\<close>

lemma map_of_relabel:
  "map_of (map (\<lambda>(a, t). (a, g a t)) d) k = map_option (g k) (map_of d k)"
  by (induction d) auto






























section \<open>The claims on the video scan\<close>

text \<open>
  C1. What the code does when the timeout ends the scan, outside performance mode and with
  a \<open>video_complete_function\<close>: the frame counter has been advanced for the frame at which
  the loop breaks, that frame has no record, the history is read up to the counter, and
  the function raises \<open>KeyError\<close> without calling \<open>video_complete_function\<close>.
\<close>

theorem timeout_then_complete_raises:
  "\<not> performance_mode opts \<and> video_complete_function opts
   \<and> ended (detectObjectsFromVideo video_model_type opts output_file_path frames_per_second detect frames)
       = TimedOut \<longrightarrow>
     returned (detectObjectsFromVideo video_model_type opts output_file_path frames_per_second detect frames)
       = Inl KeyError
     \<and> video_complete_calls (calls (final
           (detectObjectsFromVideo video_model_type opts output_file_path frames_per_second detect frames)))
       = []"
  using run_timed_out [of opts video_model_type output_file_path frames_per_second detect frames]
  by blast

lemma timeout_example:
  "ended (detectObjectsFromVideo ''yolov3'' timeout_options ''out'' 2 flaky_detect [0, 1, 2]) = TimedOut"
proof -
  have "fst (scan_frames timeout_options 2 flaky_detect [0, 1, 2] initial_state) = TimedOut"
    by (simp add: Let_def scan_frame_def check_timeout_def py_mod_def
      detection_due_def then_do_def fire_window_def window_due_def timeout_options_def
      scan_options_def initial_state_def record_frame_def call_def frame_objects_def flaky_detect_def)
  then show ?thesis by (simp add: run_ended)
qed

theorem timeout_then_complete_raises_witness:
  "\<not> performance_mode timeout_options \<and> video_complete_function timeout_options
   \<and> ended (detectObjectsFromVideo ''yolov3'' timeout_options ''out'' 2 flaky_detect [0, 1, 2]) = TimedOut
   \<and> returned (detectObjectsFromVideo ''yolov3'' timeout_options ''out'' 2 flaky_detect [0, 1, 2])
       = Inl KeyError
   \<and> video_complete_calls (calls (final
         (detectObjectsFromVideo ''yolov3'' timeout_options ''out'' 2 flaky_detect [0, 1, 2]))) = []"
proof -
  have hyp: "\<not> performance_mode timeout_options \<and> video_complete_function timeout_options
      \<and> ended (detectObjectsFromVideo ''yolov3'' timeout_options ''out'' 2 flaky_detect [0, 1, 2]) = TimedOut"
    using scan_options_fields(7,8) timeout_example by blast
  from timeout_then_complete_raises [of timeout_options "''yolov3''" "''out''" 2 flaky_detect "[0, 1, 2]"] hyp
  show ?thesis by blast
qed





end
